theory Spec2Isabelle
  imports Complex_Main "HOL-Library.Word" "HOL-Library.Code_Target_Numeral"
begin

unbundle bit_operations_syntax

section \<open>Fake DNS: the address pool, the bounded cache and the Holder\<close>

text \<open>
  A shallow embedding of \<^verbatim>\<open>app/dns/fakedns/fake.go\<close>. The Holder keeps a cursor
  (\<^verbatim>\<open>*big.Int\<close>), a pool (\<^verbatim>\<open>*net.IPNet\<close>) and an LRU cache from domains to
  addresses. Byte slices are lists of 8-bit words; the cursor, which is never
  negative, is a natural number; a nil pointer or nil interface is \<open>None\<close>.
  The model covers IPv4 pools, the scope of the specification.
\<close>

subsection \<open>Byte slices and big integers\<close>

type_synonym byte = "8 word"

text \<open>\<^verbatim>\<open>big.Int.SetBytes\<close>: the big-endian value of a byte slice.\<close>

definition SetBytes :: "byte list \<Rightarrow> nat" where
  "SetBytes bs = foldl (\<lambda>a b. a * 256 + unat b) 0 bs"

text \<open>
  \<^verbatim>\<open>big.Int.Bytes\<close>: the big-endian bytes of the absolute value, with no leading
  zero byte; the slice of 0 is empty.
\<close>

fun Bytes :: "nat \<Rightarrow> byte list" where
  "Bytes n = (if n = 0 then [] else Bytes (n div 256) @ [of_nat (n mod 256)])"

declare Bytes.simps [simp del]

subsection \<open>The standard library's IP, IPMask and IPNet\<close>

record IPNet =
  IP :: "byte list"
  Mask :: "byte list"

definition v4InV6Prefix :: "byte list" where
  "v4InV6Prefix = [0, 0, 0, 0, 0, 0, 0, 0, 0, 0, 0xff, 0xff]"

text \<open>\<^verbatim>\<open>IP.To4\<close>: the 4-byte form of an IPv4 address, nil when it is none.\<close>

definition To4 :: "byte list \<Rightarrow> byte list option" where
  "To4 ip =
     (if length ip = 4 then Some ip
      else if length ip = 16 \<and> take 12 ip = v4InV6Prefix then Some (drop 12 ip)
      else None)"

text \<open>\<^verbatim>\<open>CIDRMask(ones, bits)\<close>, for \<open>l = bits / 8\<close> bytes.\<close>

fun CIDRMask_bytes :: "nat \<Rightarrow> nat \<Rightarrow> byte list" where
  "CIDRMask_bytes n l =
     (if l = 0 then []
      else if 8 \<le> n then 0xff # CIDRMask_bytes (n - 8) (l - 1)
      else NOT (drop_bit n 0xff) # CIDRMask_bytes 0 (l - 1))"

declare CIDRMask_bytes.simps [simp del]

definition CIDRMask :: "nat \<Rightarrow> nat \<Rightarrow> byte list option" where
  "CIDRMask ones bits =
     (if bits \<noteq> 32 \<and> bits \<noteq> 128 then None
      else if bits < ones then None
      else Some (CIDRMask_bytes ones (bits div 8)))"

text \<open>
  \<^verbatim>\<open>simpleMaskLength\<close> and \<^verbatim>\<open>IPMask.Size\<close>: the number of leading ones and the
  number of bits of a canonical mask, \<open>(0, 0)\<close> for any other mask. The inner
  loop \<^verbatim>\<open>for v&0x80 != 0 { n++; v <<= 1 }\<close> shifts a byte and so turns at most 8
  times; \<open>countOnes\<close> is given these 8 turns.
\<close>

fun countOnes :: "nat \<Rightarrow> byte \<Rightarrow> nat \<times> byte" where
  "countOnes k v =
     (if k = 0 then (0, v)
      else if v AND 0x80 \<noteq> 0
      then (case countOnes (k - 1) (push_bit 1 v) of (n, v') \<Rightarrow> (n + 1, v'))
      else (0, v))"

declare countOnes.simps [simp del]

fun simpleMaskLength :: "byte list \<Rightarrow> nat option" where
  "simpleMaskLength [] = Some 0"
| "simpleMaskLength (v # rest) =
     (if v = 0xff then map_option (\<lambda>n. n + 8) (simpleMaskLength rest)
      else (case countOnes 8 v of (n, v') \<Rightarrow>
              if v' \<noteq> 0 then None
              else if \<exists>b \<in> set rest. b \<noteq> 0 then None
              else Some n))"

definition Size :: "byte list \<Rightarrow> nat \<times> nat" where
  "Size m = (case simpleMaskLength m of None \<Rightarrow> (0, 0) | Some ones \<Rightarrow> (ones, length m * 8))"

text \<open>\<^verbatim>\<open>IP.Mask\<close> for a 4-byte address and a 4-byte mask.\<close>

definition MaskIP :: "byte list \<Rightarrow> byte list \<Rightarrow> byte list" where
  "MaskIP ip m = map2 (AND) ip m"

text \<open>
  \<^verbatim>\<open>IPNet.Contains\<close>, for a network with a 4-byte number and a 4-byte mask, which
  is what \<^verbatim>\<open>ParseCIDR\<close> makes of an IPv4 block: the address, in 4-byte form when it
  has one, has the length of the network number and agrees with it under the
  mask. Networks of another shape are outside the model, and contain nothing in
  it.
\<close>

definition Contains :: "IPNet \<Rightarrow> byte list \<Rightarrow> bool" where
  "Contains n ip =
     (let ip' = (case To4 ip of Some x \<Rightarrow> x | None \<Rightarrow> ip)
      in length (IP n) = 4 \<and> length (Mask n) = 4 \<and> length ip' = length (IP n) \<and>
         map2 (AND) (IP n) (Mask n) = map2 (AND) ip' (Mask n))"

subsection \<open>Parsing a CIDR string\<close>

text \<open>
  \<^verbatim>\<open>net.ParseCIDR\<close> of the standard library, on dotted-decimal IPv4 blocks:
  \<^verbatim>\<open>dtoi\<close> reads a decimal number and says how many characters it took,
  \<^verbatim>\<open>parseIPv4\<close> reads four octets separated by dots. An octet above 255 or with a
  leading zero, and a prefix length above 32, are errors. IPv6 literals are
  outside the model, which reads them as errors.
\<close>

definition isDigit :: "char \<Rightarrow> bool" where
  "isDigit c \<longleftrightarrow> 48 \<le> (of_char c :: nat) \<and> (of_char c :: nat) \<le> 57"

definition big :: nat where
  "big = 0xFFFFFF"

fun dtoi_loop :: "string \<Rightarrow> nat \<Rightarrow> nat \<Rightarrow> nat \<times> nat \<times> bool" where
  "dtoi_loop [] n i = (n, i, True)"
| "dtoi_loop (c # s) n i =
     (if isDigit c
      then (let n' = n * 10 + (of_char c - 48)
            in if big \<le> n' then (big, i, False) else dtoi_loop s n' (Suc i))
      else (n, i, True))"

definition dtoi :: "string \<Rightarrow> nat \<times> nat \<times> bool" where
  "dtoi s =
     (case dtoi_loop s 0 0 of
        (n, i, ok) \<Rightarrow> if \<not> ok then (n, i, False) else if i = 0 then (0, 0, False) else (n, i, True))"

function parseIPv4_loop :: "nat \<Rightarrow> string \<Rightarrow> byte list option" where
  "parseIPv4_loop i s =
     (if 4 \<le> i then (if s = [] then Some [] else None)
      else if s = [] then None
      else if 0 < i \<and> hd s \<noteq> CHR ''.'' then None
      else (let s1 = (if 0 < i then tl s else s) in
            case dtoi s1 of
              (n, c, ok) \<Rightarrow>
                if \<not> ok \<or> 255 < n then None
                else if 1 < c \<and> hd s1 = CHR ''0'' then None
                else map_option (\<lambda>p. of_nat n # p) (parseIPv4_loop (i + 1) (drop c s1))))"
  by pat_completeness auto
termination
  by (relation "measure (\<lambda>(i, s). 4 - i)") auto

declare parseIPv4_loop.simps [simp del]

definition parseIPv4 :: "string \<Rightarrow> byte list option" where
  "parseIPv4 s = map_option (\<lambda>p. v4InV6Prefix @ p) (parseIPv4_loop 0 s)"

definition ParseCIDR :: "string \<Rightarrow> (byte list \<times> IPNet) option" where
  "ParseCIDR s =
     (if CHR ''/'' \<notin> set s then None
      else (let addr = takeWhile (\<lambda>c. c \<noteq> CHR ''/'') s;
                msk = tl (dropWhile (\<lambda>c. c \<noteq> CHR ''/'') s)
            in case parseIPv4 addr of
                 None \<Rightarrow> None
               | Some ip \<Rightarrow>
                   (case dtoi msk of
                      (n, i, ok) \<Rightarrow>
                        if \<not> ok \<or> i \<noteq> length msk \<or> 32 < n then None
                        else (case CIDRMask n 32 of
                                None \<Rightarrow> None
                              | Some m \<Rightarrow> Some (ip, \<lparr>IP = MaskIP (drop 12 ip) m, Mask = m\<rparr>)))))"

subsection \<open>Addresses\<close>

text \<open>
  Modelled from the spec: package \<^verbatim>\<open>common/net\<close> (\<^verbatim>\<open>Address\<close>, \<^verbatim>\<open>IPAddress\<close>,
  \<^verbatim>\<open>Family\<close>, \<^verbatim>\<open>IP\<close>) is not among the sources. The spec speaks of a fake address
  as a 4-byte IPv4 value and of address values of other families. A byte slice
  of 4 bytes is an IPv4 address, one of 16 bytes an IPv6 address (an IPv4 one when
  it is IPv4-mapped); a slice of any other length is no address, and
  \<^verbatim>\<open>IPAddress\<close> yields the nil interface, here \<open>None\<close>.
\<close>

datatype Address = IPv4Address "byte list" | IPv6Address "byte list" | DomainAddress string

datatype AddressFamily = AddressFamilyIPv4 | AddressFamilyIPv6 | AddressFamilyDomain

fun Family :: "Address \<Rightarrow> AddressFamily" where
  "Family (IPv4Address _) = AddressFamilyIPv4"
| "Family (IPv6Address _) = AddressFamilyIPv6"
| "Family (DomainAddress _) = AddressFamilyDomain"

definition IsIP :: "AddressFamily \<Rightarrow> bool" where
  "IsIP af \<longleftrightarrow> af = AddressFamilyIPv4 \<or> af = AddressFamilyIPv6"

fun AddressIP :: "Address \<Rightarrow> byte list" where
  "AddressIP (IPv4Address ip) = ip"
| "AddressIP (IPv6Address ip) = ip"
| "AddressIP (DomainAddress _) = []"

definition IPAddress :: "byte list \<Rightarrow> Address option" where
  "IPAddress ip =
     (if length ip = 4 then Some (IPv4Address ip)
      else if length ip = 16 then
        (if take 12 ip = v4InV6Prefix then Some (IPv4Address (drop 12 ip))
         else Some (IPv6Address ip))
      else None)"

subsection \<open>The bounded cache\<close>

text \<open>
  Modelled from the spec: package \<^verbatim>\<open>common/cache\<close> (\<^verbatim>\<open>Lru\<close>, \<^verbatim>\<open>NewLru\<close>) is not
  among the sources; this is the contract of section 4.2 of the specification.
  The entries are kept in order of recency, the most recently used first.
  \<^verbatim>\<open>get\<close> marks the entry it finds most recently used. \<^verbatim>\<open>put\<close> replaces the
  value of a key that is there; for a new key, when the cache is at capacity, it
  evicts the least recently used entry and then inserts. The reverse lookup
  finds the key of a value and leaves the order alone. Forward and reverse
  lookups read the same entries, so an evicted pair is gone from both.
\<close>

record ('k, 'v) Lru =
  capacity :: int
  entries :: "('k \<times> 'v) list"

definition NewLru :: "int \<Rightarrow> ('k, 'v) Lru" where
  "NewLru cap = \<lparr>capacity = cap, entries = []\<rparr>"

definition Get :: "('k, 'v) Lru \<Rightarrow> 'k \<Rightarrow> 'v option \<times> ('k, 'v) Lru" where
  "Get l k =
     (case map_of (entries l) k of
        None \<Rightarrow> (None, l)
      | Some v \<Rightarrow> (Some v, l\<lparr>entries := (k, v) # filter (\<lambda>e. fst e \<noteq> k) (entries l)\<rparr>))"

definition GetKeyFromValue :: "('k, 'v) Lru \<Rightarrow> 'v \<Rightarrow> 'k option" where
  "GetKeyFromValue l v = map_option fst (find (\<lambda>e. snd e = v) (entries l))"

definition Put :: "('k, 'v) Lru \<Rightarrow> 'k \<Rightarrow> 'v \<Rightarrow> ('k, 'v) Lru" where
  "Put l k v =
     (if k \<in> fst ` set (entries l)
      then l\<lparr>entries := map (\<lambda>e. if fst e = k then (k, v) else e) (entries l)\<rparr>
      else l\<lparr>entries := (k, v) #
             (if capacity l \<le> int (length (entries l)) then butlast (entries l)
              else entries l)\<rparr>)"

subsection \<open>The Holder\<close>

record FakeDnsPool =
  IpPool :: string
  LruSize :: int

record Holder =
  domainToIP :: "(string, Address option) Lru option"
  nextIP :: "nat option"
  ipRange :: "IPNet option"
  config :: "FakeDnsPool option"

text \<open>
  What a call can end in besides a result: the two errors of \<^verbatim>\<open>initialize\<close>, and
  the panics of the runtime on a nil pointer and on a failed type assertion.
\<close>

datatype error = UnableToParseCIDR | LruSizeTooBig | NilDereference | InterfaceConversion

definition Close :: "Holder \<Rightarrow> Holder \<times> error option" where
  "Close holder = (holder\<lparr>domainToIP := None, nextIP := None, ipRange := None\<rparr>, None)"

definition NewFakeDNSHolderConfigOnly :: "FakeDnsPool option \<Rightarrow> Holder" where
  "NewFakeDNSHolderConfigOnly conf =
     \<lparr>domainToIP = None, nextIP = None, ipRange = None, config = conf\<rparr>"

text \<open>
  The test \<^verbatim>\<open>math.Log2(float64(lruSize)) >= float64(rooms)\<close>. For \<open>lruSize \<le> 0\<close> the
  logarithm is minus infinity or not a number and the comparison is false. For
  \<open>lruSize \<ge> 1\<close> and at most 32 rooms the floating-point comparison is exact: the
  conversion is exact below \<open>2 ^ 53\<close> and monotone above, and \<^verbatim>\<open>math.Log2\<close> is
  exact on powers of two. So the test holds exactly when \<open>2 ^ rooms \<le> lruSize\<close>.
\<close>

definition Log2_ge :: "int \<Rightarrow> nat \<Rightarrow> bool" where
  "Log2_ge lruSize rooms \<longleftrightarrow> 0 < lruSize \<and> 2 ^ rooms \<le> lruSize"

definition initialize :: "Holder \<Rightarrow> string \<Rightarrow> int \<Rightarrow> error + Holder" where
  "initialize holder ipPoolCidr lruSize =
     (case ParseCIDR ipPoolCidr of
        None \<Rightarrow> Inl UnableToParseCIDR
      | Some (ipaddr, ipRange') \<Rightarrow>
          (let currentIP = (case To4 ipaddr of None \<Rightarrow> SetBytes ipaddr | Some ip4 \<Rightarrow> SetBytes ip4);
               (ones, bits) = Size (Mask ipRange');
               rooms = bits - ones
           in if Log2_ge lruSize rooms then Inl LruSizeTooBig
              else Inr (holder\<lparr>domainToIP := Some (NewLru lruSize),
                                ipRange := Some ipRange',
                                nextIP := Some currentIP\<rparr>)))"

definition initializeFromConfig :: "Holder \<Rightarrow> error + Holder" where
  "initializeFromConfig holder =
     (case config holder of
        None \<Rightarrow> Inl NilDereference
      | Some conf \<Rightarrow> initialize holder (IpPool conf) (LruSize conf))"

definition Start :: "Holder \<Rightarrow> error + Holder" where
  "Start holder = initializeFromConfig holder"

definition NewFakeDNSHolder :: "error + Holder" where
  "NewFakeDNSHolder = initialize (NewFakeDNSHolderConfigOnly None) ''240.0.0.0/8'' 65535"

text \<open>
  One turn of the allocation loop moves the cursor: it is incremented, and set
  to the pool's network number when the incremented value is not in the pool.
\<close>

definition advance :: "IPNet \<Rightarrow> nat \<Rightarrow> nat" where
  "advance r n = (if \<not> Contains r (Bytes (n + 1)) then SetBytes (IP r) else n + 1)"

text \<open>
  The loop \<^verbatim>\<open>for { ... }\<close> of \<^verbatim>\<open>GetFakeIPForDomain\<close>. It has no bound and no way
  out but a candidate that the cache does not hold; a run that never finds one
  is the value \<open>None\<close>.
\<close>

partial_function (option) allocLoop ::
  "(string, Address option) Lru \<Rightarrow> IPNet \<Rightarrow> nat \<Rightarrow> (Address option \<times> nat) option" where
  "allocLoop c r n =
     (case GetKeyFromValue c (IPAddress (Bytes n)) of
        None \<Rightarrow> Some (IPAddress (Bytes n), advance r n)
      | Some k \<Rightarrow> allocLoop c r (advance r n))"

declare allocLoop.simps [code]

text \<open>
  \<^verbatim>\<open>GetFakeIPForDomain\<close> returns the addresses and the Holder as it has become; it
  panics on a Holder that is not initialized, and on a cached nil value, which
  the assertion \<^verbatim>\<open>v.(net.Address)\<close> refuses. \<open>None\<close> is a call that does not return.
\<close>

definition GetFakeIPForDomain ::
  "Holder \<Rightarrow> string \<Rightarrow> (error + Address option list \<times> Holder) option" where
  "GetFakeIPForDomain holder domain =
     (case domainToIP holder of
        None \<Rightarrow> Some (Inl NilDereference)
      | Some c \<Rightarrow>
          (case Get c domain of
             (Some v, c') \<Rightarrow>
               (case v of
                  None \<Rightarrow> Some (Inl InterfaceConversion)
                | Some a \<Rightarrow> Some (Inr ([Some a], holder\<lparr>domainToIP := Some c'\<rparr>)))
           | (None, _) \<Rightarrow>
               (case (nextIP holder, ipRange holder) of
                  (Some n, Some r) \<Rightarrow>
                    (case allocLoop c r n of
                       None \<Rightarrow> None
                     | Some (ip, n') \<Rightarrow>
                         Some (Inr ([ip], holder\<lparr>nextIP := Some n',
                                                 domainToIP := Some (Put c domain ip)\<rparr>)))
                | _ \<Rightarrow> Some (Inl NilDereference))))"

text \<open>\<^verbatim>\<open>GetDomainFromFakeDNS\<close>; the empty string is "not found".\<close>

definition GetDomainFromFakeDNS :: "Holder \<Rightarrow> Address option \<Rightarrow> error + string" where
  "GetDomainFromFakeDNS holder ip =
     (case ip of
        None \<Rightarrow> Inl NilDereference
      | Some a \<Rightarrow>
          if \<not> IsIP (Family a) then Inr []
          else (case ipRange holder of
                  None \<Rightarrow> Inl NilDereference
                | Some r \<Rightarrow>
                    if \<not> Contains r (AddressIP a) then Inr []
                    else (case domainToIP holder of
                            None \<Rightarrow> Inl NilDereference
                          | Some c \<Rightarrow>
                              (case GetKeyFromValue c ip of
                                 Some k \<Rightarrow> Inr k
                               | None \<Rightarrow> Inr []))))"

subsection \<open>Sequences of calls\<close>

datatype call = AllocCall string | ReverseCall "Address option"

text \<open>
  A sequence of calls on a Holder, one after the other; it stops at the first
  call that panics, and does not return when one of its calls does not.
\<close>

fun run :: "Holder \<Rightarrow> call list \<Rightarrow> (error + Holder) option" where
  "run h [] = Some (Inr h)"
| "run h (AllocCall d # cs) =
     (case GetFakeIPForDomain h d of
        None \<Rightarrow> None
      | Some (Inl e) \<Rightarrow> Some (Inl e)
      | Some (Inr (_, h')) \<Rightarrow> run h' cs)"
| "run h (ReverseCall a # cs) =
     (case GetDomainFromFakeDNS h a of
        Inl e \<Rightarrow> Some (Inl e)
      | Inr _ \<Rightarrow> run h cs)"

subsection \<open>Notions of the specification\<close>

text \<open>The number of host bits of a pool, \<^verbatim>\<open>rooms := bits - ones\<close> in \<^verbatim>\<open>initialize\<close>.\<close>

definition rooms :: "IPNet \<Rightarrow> nat" where
  "rooms r = snd (Size (Mask r)) - fst (Size (Mask r))"

text \<open>
  The live mappings of a Holder are the entries of its cache. They form a partial
  bijection when no domain has two addresses and no address has two domains.
\<close>

definition live :: "Holder \<Rightarrow> (string \<times> Address option) set" where
  "live h = (case domainToIP h of None \<Rightarrow> {} | Some c \<Rightarrow> set (entries c))"

definition partial_bijection :: "('k \<times> 'v) set \<Rightarrow> bool" where
  "partial_bijection m \<longleftrightarrow>
     (\<forall>k v v'. (k, v) \<in> m \<and> (k, v') \<in> m \<longrightarrow> v = v') \<and>
     (\<forall>k k' v. (k, v) \<in> m \<and> (k', v) \<in> m \<longrightarrow> k = k')"

text \<open>
  The address a cursor denotes: its four bytes, most significant first. (The
  slice \<open>Bytes n\<close> is shorter when the leading byte is zero.)
\<close>

definition bytes4 :: "nat \<Rightarrow> byte list" where
  "bytes4 n =
     [of_nat (n div 256 div 256 div 256 mod 256), of_nat (n div 256 div 256 mod 256),
      of_nat (n div 256 mod 256), of_nat (n mod 256)]"

definition cursor_in_range :: "IPNet \<Rightarrow> nat \<Rightarrow> bool" where
  "cursor_in_range r n \<longleftrightarrow> n < 4294967296 \<and> Contains r (bytes4 n)"

text \<open>
  A pool as \<^verbatim>\<open>ParseCIDR\<close> makes it: a 4-byte mask and a 4-byte network number
  that the mask leaves as it is.
\<close>

definition pool_wf :: "IPNet \<Rightarrow> bool" where
  "pool_wf r \<longleftrightarrow> length (IP r) = 4 \<and> length (Mask r) = 4 \<and> MaskIP (IP r) (Mask r) = IP r"

text \<open>
  What holds of a Holder between calls: it has its cache, pool and cursor; the
  cursor denotes an address of the pool; the cache has no key twice and no value
  twice; and every address in the cache is an IPv4 address of the pool.
\<close>

definition holder_inv :: "Holder \<Rightarrow> bool" where
  "holder_inv h \<longleftrightarrow>
     (\<exists>c r n. domainToIP h = Some c \<and> ipRange h = Some r \<and> nextIP h = Some n \<and>
        pool_wf r \<and> cursor_in_range r n \<and>
        distinct (map fst (entries c)) \<and> distinct (map snd (entries c)) \<and>
        (\<forall>e \<in> set (entries c). \<forall>a. snd e = Some a \<longrightarrow>
           (\<exists>bs. a = IPv4Address bs \<and> Contains r bs)))"

text \<open>
  The base address of a pool as a number, the number of its addresses, and a pool
  as \<^verbatim>\<open>ParseCIDR\<close> makes it from an address and a prefix length.
\<close>

definition base :: "IPNet \<Rightarrow> nat" where
  "base r = SetBytes (IP r)"

definition poolSize :: "IPNet \<Rightarrow> nat" where
  "poolSize r = 2 ^ rooms r"

definition cidr_pool :: "IPNet \<Rightarrow> bool" where
  "cidr_pool r \<longleftrightarrow>
     (\<exists>ip4 ones. length ip4 = 4 \<and> ones \<le> 32 \<and>
        r = \<lparr>IP = MaskIP ip4 (CIDRMask_bytes ones 4), Mask = CIDRMask_bytes ones 4\<rparr>)"

text \<open>
  The cache of a Holder has the capacity \<open>n\<close> and holds at most \<open>n\<close> entries; and no
  live mapping has the nil address.
\<close>

definition cap_inv :: "int \<Rightarrow> Holder \<Rightarrow> bool" where
  "cap_inv n h \<longleftrightarrow>
     (\<exists>c. domainToIP h = Some c \<and> capacity c = n \<and> int (length (entries c)) \<le> n)"

definition no_nil :: "Holder \<Rightarrow> bool" where
  "no_nil h \<longleftrightarrow> (\<forall>e \<in> live h. snd e \<noteq> None)"

text \<open>
  The Holders of the pool \<^verbatim>\<open>0.0.0.0/8\<close> with capacity 2: as initialized, and after
  the first allocation.
\<close>

definition zero_pool :: IPNet where
  "zero_pool = \<lparr>IP = [0, 0, 0, 0], Mask = [255, 0, 0, 0]\<rparr>"

definition zero_holder :: Holder where
  "zero_holder =
     \<lparr>domainToIP = Some \<lparr>capacity = 2, entries = []\<rparr>, nextIP = Some 0,
      ipRange = Some zero_pool, config = None\<rparr>"

definition zero_holder_1 :: Holder where
  "zero_holder_1 =
     \<lparr>domainToIP = Some \<lparr>capacity = 2, entries = [(''a.com'', None)]\<rparr>, nextIP = Some 0,
      ipRange = Some zero_pool, config = None\<rparr>"



section \<open>Properties\<close>

subsection \<open>Initialization\<close>



lemma initialize_cases:
  "initialize h s n =
     (case ParseCIDR s of
        None \<Rightarrow> Inl UnableToParseCIDR
      | Some (ip, r) \<Rightarrow>
          if Log2_ge n (rooms r) then Inl LruSizeTooBig
          else Inr (h\<lparr>domainToIP := Some (NewLru n), ipRange := Some r,
                      nextIP := Some (SetBytes (case To4 ip of None \<Rightarrow> ip | Some ip4 \<Rightarrow> ip4))\<rparr>))"
  by (simp add: initialize_def rooms_def Let_def split: option.splits prod.splits)

lemma parse_240_8: "ParseCIDR ''240.0.0.0/8'' = Some (v4InV6Prefix @ [240, 0, 0, 0], \<lparr>IP = [240, 0, 0, 0], Mask = [255, 0, 0, 0]\<rparr>)"
  by (simp add: ParseCIDR_def parseIPv4_def parseIPv4_loop.simps dtoi_def isDigit_def big_def CIDRMask_def CIDRMask_bytes.simps MaskIP_def v4InV6Prefix_def)

lemma parse_240_30: "ParseCIDR ''240.0.0.0/30'' = Some (v4InV6Prefix @ [240, 0, 0, 0], \<lparr>IP = [240, 0, 0, 0], Mask = [255, 255, 255, 252]\<rparr>)"
  by (simp add: ParseCIDR_def parseIPv4_def parseIPv4_loop.simps dtoi_def isDigit_def big_def CIDRMask_def CIDRMask_bytes.simps MaskIP_def v4InV6Prefix_def)

lemma size_8: "Size [255, 0, 0, 0] = (8, 32)"
  by (simp add: Size_def countOnes.simps)

lemma size_30: "Size [255, 255, 255, 252] = (30, 32)"
  by (simp add: Size_def countOnes.simps)


lemma init_8_2: "initialize h ''240.0.0.0/8'' 2 = Inr (h\<lparr>domainToIP := Some (NewLru 2), ipRange := Some \<lparr>IP = [240, 0, 0, 0], Mask = [255, 0, 0, 0]\<rparr>, nextIP := Some 4026531840\<rparr>)"
  by (simp add: initialize_def parse_240_8 size_8 Log2_ge_def To4_def v4InV6Prefix_def SetBytes_def)



subsection \<open>Close\<close>

text \<open>
  Claim C10. \<^verbatim>\<open>Close\<close> sets the cache, the cursor and the pool to nil, leaves
  the configuration as it is, and returns a nil error.
\<close>

theorem Close_frame:
  "domainToIP (fst (Close h)) = None \<and> nextIP (fst (Close h)) = None \<and>
   ipRange (fst (Close h)) = None \<and> config (fst (Close h)) = config h \<and>
   snd (Close h) = None"
  by (simp add: Close_def)

subsection \<open>The scenario of the specification\<close>

lemmas eval_defs = GetFakeIPForDomain_def GetDomainFromFakeDNS_def Get_def Put_def NewLru_def
  GetKeyFromValue_def allocLoop.simps advance_def Contains_def To4_def IPAddress_def Bytes.simps
  v4InV6Prefix_def IsIP_def SetBytes_def

lemma scenario_step1:
  "GetFakeIPForDomain \<lparr>domainToIP = Some (NewLru 2), nextIP = Some 4026531840, ipRange = Some \<lparr>IP = [240, 0, 0, 0], Mask = [255, 0, 0, 0]\<rparr>, config = None\<rparr> ''a.com''
   = Some (Inr ([Some (IPv4Address [240, 0, 0, 0])],
       \<lparr>domainToIP = Some \<lparr>capacity = 2, entries = [(''a.com'', Some (IPv4Address [240, 0, 0, 0]))]\<rparr>, nextIP = Some 4026531841, ipRange = Some \<lparr>IP = [240, 0, 0, 0], Mask = [255, 0, 0, 0]\<rparr>, config = None\<rparr>))"
  by (simp add: eval_defs)

lemma scenario_step2:
  "GetFakeIPForDomain \<lparr>domainToIP = Some \<lparr>capacity = 2, entries = [(''a.com'', Some (IPv4Address [240, 0, 0, 0]))]\<rparr>, nextIP = Some 4026531841, ipRange = Some \<lparr>IP = [240, 0, 0, 0], Mask = [255, 0, 0, 0]\<rparr>, config = None\<rparr> ''b.com''
   = Some (Inr ([Some (IPv4Address [240, 0, 0, 1])],
       \<lparr>domainToIP = Some \<lparr>capacity = 2, entries = [(''b.com'', Some (IPv4Address [240, 0, 0, 1])), (''a.com'', Some (IPv4Address [240, 0, 0, 0]))]\<rparr>, nextIP = Some 4026531842, ipRange = Some \<lparr>IP = [240, 0, 0, 0], Mask = [255, 0, 0, 0]\<rparr>, config = None\<rparr>))"
  by (simp add: eval_defs)

lemma scenario_step3:
  "GetFakeIPForDomain \<lparr>domainToIP = Some \<lparr>capacity = 2, entries = [(''b.com'', Some (IPv4Address [240, 0, 0, 1])), (''a.com'', Some (IPv4Address [240, 0, 0, 0]))]\<rparr>, nextIP = Some 4026531842, ipRange = Some \<lparr>IP = [240, 0, 0, 0], Mask = [255, 0, 0, 0]\<rparr>, config = None\<rparr> ''c.com''
   = Some (Inr ([Some (IPv4Address [240, 0, 0, 2])],
       \<lparr>domainToIP = Some \<lparr>capacity = 2, entries = [(''c.com'', Some (IPv4Address [240, 0, 0, 2])), (''b.com'', Some (IPv4Address [240, 0, 0, 1]))]\<rparr>, nextIP = Some 4026531843, ipRange = Some \<lparr>IP = [240, 0, 0, 0], Mask = [255, 0, 0, 0]\<rparr>, config = None\<rparr>))"
  by (simp add: eval_defs)

lemma scenario_reverse:
  "GetDomainFromFakeDNS \<lparr>domainToIP = Some \<lparr>capacity = 2, entries = [(''c.com'', Some (IPv4Address [240, 0, 0, 2])), (''b.com'', Some (IPv4Address [240, 0, 0, 1]))]\<rparr>, nextIP = Some 4026531843, ipRange = Some \<lparr>IP = [240, 0, 0, 0], Mask = [255, 0, 0, 0]\<rparr>, config = None\<rparr> (Some (IPv4Address [240, 0, 0, 0])) = Inr [] \<and>
   GetDomainFromFakeDNS \<lparr>domainToIP = Some \<lparr>capacity = 2, entries = [(''c.com'', Some (IPv4Address [240, 0, 0, 2])), (''b.com'', Some (IPv4Address [240, 0, 0, 1]))]\<rparr>, nextIP = Some 4026531843, ipRange = Some \<lparr>IP = [240, 0, 0, 0], Mask = [255, 0, 0, 0]\<rparr>, config = None\<rparr> (Some (IPv4Address [240, 0, 0, 1])) = Inr ''b.com'' \<and>
   GetDomainFromFakeDNS \<lparr>domainToIP = Some \<lparr>capacity = 2, entries = [(''b.com'', Some (IPv4Address [240, 0, 0, 1])), (''a.com'', Some (IPv4Address [240, 0, 0, 0]))]\<rparr>, nextIP = Some 4026531842, ipRange = Some \<lparr>IP = [240, 0, 0, 0], Mask = [255, 0, 0, 0]\<rparr>, config = None\<rparr> (Some (IPv4Address [240, 0, 0, 0])) = Inr ''a.com''"
  by (simp add: eval_defs)

text \<open>
  Claim C7. On a Holder initialized with the pool \<^verbatim>\<open>240.0.0.0/8\<close> and capacity 2,
  \<^verbatim>\<open>a.com\<close> is given 240.0.0.0 and \<^verbatim>\<open>b.com\<close> 240.0.0.1; allocating for
  \<^verbatim>\<open>c.com\<close> evicts \<^verbatim>\<open>a.com\<close>: the reverse lookup of 240.0.0.0, which found
  \<^verbatim>\<open>a.com\<close> before, now finds nothing, and the address of \<^verbatim>\<open>c.com\<close> is not
  240.0.0.1, which still belongs to \<^verbatim>\<open>b.com\<close>.
\<close>

theorem scenario_240_8_capacity_2:
  "\<exists>h0 h1 h2 h3 a.
     initialize (NewFakeDNSHolderConfigOnly None) ''240.0.0.0/8'' 2 = Inr h0 \<and>
     GetFakeIPForDomain h0 ''a.com'' = Some (Inr ([Some (IPv4Address [240, 0, 0, 0])], h1)) \<and>
     GetFakeIPForDomain h1 ''b.com'' = Some (Inr ([Some (IPv4Address [240, 0, 0, 1])], h2)) \<and>
     GetDomainFromFakeDNS h2 (Some (IPv4Address [240, 0, 0, 0])) = Inr ''a.com'' \<and>
     GetFakeIPForDomain h2 ''c.com'' = Some (Inr ([Some a], h3)) \<and>
     a \<noteq> IPv4Address [240, 0, 0, 1] \<and>
     map_option (\<lambda>c. map fst (entries c)) (domainToIP h3) = Some [''c.com'', ''b.com''] \<and>
     GetDomainFromFakeDNS h3 (Some (IPv4Address [240, 0, 0, 0])) = Inr [] \<and>
     GetDomainFromFakeDNS h3 (Some (IPv4Address [240, 0, 0, 1])) = Inr ''b.com''"
  by (simp add: init_8_2 NewFakeDNSHolderConfigOnly_def scenario_step1 scenario_step2
      scenario_step3 scenario_reverse)

subsection \<open>Bytes of a number\<close>

lemma Bytes_0: "Bytes 0 = []"
  by (subst Bytes.simps) simp

lemma Bytes_pos: "n \<noteq> 0 \<Longrightarrow> Bytes n = Bytes (n div 256) @ [of_nat (n mod 256)]"
  by (subst Bytes.simps) simp

lemma length_Bytes_le: "length (Bytes n) \<le> k \<longleftrightarrow> n < 256 ^ k"
proof (induction k arbitrary: n)
  case 0
  show ?case by (cases "n = 0") (simp_all add: Bytes_0 Bytes_pos)
next
  case (Suc k)
  show ?case
  proof (cases "n = 0")
    case True
    then show ?thesis by (simp add: Bytes_0)
  next
    case False
    have "length (Bytes n) \<le> Suc k \<longleftrightarrow> n div 256 < 256 ^ k"
      using Suc.IH [of "n div 256"] False by (simp add: Bytes_pos)
    also have "\<dots> \<longleftrightarrow> n < 256 ^ Suc k"
      by (simp add: div_less_iff_less_mult mult.commute)
    finally show ?thesis .
  qed
qed

lemma length_Bytes_4: "length (Bytes n) = 4 \<longleftrightarrow> 16777216 \<le> n \<and> n < 4294967296"
proof -
  have "length (Bytes n) = 4 \<longleftrightarrow> length (Bytes n) \<le> 4 \<and> \<not> length (Bytes n) \<le> 3"
    by arith
  then show ?thesis
    unfolding length_Bytes_le by auto
qed

lemma length_Bytes_16: "length (Bytes n) = 16 \<Longrightarrow> 4294967296 \<le> n"
proof -
  assume "length (Bytes n) = 16"
  then have "\<not> length (Bytes n) \<le> 4" by simp
  then show ?thesis unfolding length_Bytes_le by simp
qed

lemma Bytes_eq_bytes4: "length (Bytes n) = 4 \<Longrightarrow> Bytes n = bytes4 n"
proof -
  assume "length (Bytes n) = 4"
  then have n: "16777216 \<le> n" "n < 4294967296" by (simp_all add: length_Bytes_4)
  have d1: "n \<noteq> 0" "n div 256 \<noteq> 0" "n div 256 div 256 \<noteq> 0" "n div 256 div 256 div 256 \<noteq> 0"
    using n by (simp_all add: div_eq_0_iff div_mult2_eq [symmetric])
  have d2: "n div 256 div 256 div 256 div 256 = 0"
    using n by (simp add: div_mult2_eq [symmetric])
  show ?thesis
    by (simp add: Bytes_pos [OF d1(1)] Bytes_pos [OF d1(2)] Bytes_pos [OF d1(3)]
        Bytes_pos [OF d1(4)] d2 Bytes_0 bytes4_def)
qed

lemma SetBytes_4: "SetBytes [a, b, c, d] = ((unat a * 256 + unat b) * 256 + unat c) * 256 + unat d"
  by (simp add: SetBytes_def)

lemma unat_byte_lt: "unat (b :: byte) < 256"
  using unsigned_less [of b, where 'a = nat] by simp

lemma length_4_cases: "length bs = 4 \<Longrightarrow> \<exists>a b c d. bs = [a, b, c, d]"
  by (auto simp: length_Suc_conv eval_nat_numeral)

lemma SetBytes_lt: "length bs = 4 \<Longrightarrow> SetBytes bs < 4294967296"
proof -
  assume "length bs = 4"
  then obtain a b c d where bs: "bs = [a, b, c, d]" using length_4_cases by blast
  show ?thesis
    using unat_byte_lt [of a] unat_byte_lt [of b] unat_byte_lt [of c] unat_byte_lt [of d]
    by (simp add: bs SetBytes_4)
qed

lemma shift_byte:
  fixes q w :: nat
  assumes "w < 256"
  shows "(q * 256 + w) mod 256 = w" and "(q * 256 + w) div 256 = q"
  using assms by simp_all

lemma of_nat_unat_byte: "(of_nat (unat b) :: byte) = b"
  by simp

lemma bytes4_SetBytes: "length bs = 4 \<Longrightarrow> bytes4 (SetBytes bs) = bs"
proof -
  assume "length bs = 4"
  then obtain a b c d where bs: "bs = [a, b, c, d]" using length_4_cases by blast
  define x y z w where "x = unat a" and "y = unat b" and "z = unat c" and "w = unat d"
  have lt: "x < 256" "y < 256" "z < 256" "w < 256"
    by (simp_all add: x_def y_def z_def w_def unat_byte_lt)
  have v: "SetBytes bs = ((x * 256 + y) * 256 + z) * 256 + w"
    by (simp add: bs SetBytes_4 x_def y_def z_def w_def)
  have "bytes4 (SetBytes bs) = [of_nat x, of_nat y, of_nat z, of_nat w]"
    unfolding v bytes4_def
    by (simp only: shift_byte [OF lt(4)] shift_byte [OF lt(3)] shift_byte [OF lt(2)]
        mod_less [OF lt(1)])
  then show ?thesis
    by (simp only: bs x_def y_def z_def w_def of_nat_unat_byte)
qed

lemma SetBytes_bytes4: "n < 4294967296 \<Longrightarrow> SetBytes (bytes4 n) = n"
proof -
  assume n: "n < 4294967296"
  have u: "unat (of_nat (k mod 256) :: byte) = k mod 256" for k
    by (simp add: unat_of_nat)
  have q: "n div 256 div 256 div 256 mod 256 = n div 256 div 256 div 256"
    using n by (simp add: div_mult2_eq [symmetric])
  have e: "q div 256 * 256 + q mod 256 = q" for q :: nat
    by simp
  have "SetBytes (bytes4 n) =
      ((n div 256 div 256 div 256 * 256 + n div 256 div 256 mod 256) * 256 + n div 256 mod 256) * 256 + n mod 256"
    by (simp only: bytes4_def SetBytes_4 u) (simp only: q)
  also have "\<dots> = n"
    by (simp only: e)
  finally show ?thesis .
qed

lemma length_bytes4: "length (bytes4 n) = 4"
  by (simp add: bytes4_def)

subsection \<open>The cache\<close>


lemma distinct_snd_key: "distinct (map snd es) \<Longrightarrow> (k, v) \<in> set es \<Longrightarrow> (k', v) \<in> set es \<Longrightarrow> k = k'"
  by (induction es) force+

lemma distinct_fst_value: "distinct (map fst es) \<Longrightarrow> (k, v) \<in> set es \<Longrightarrow> (k, v') \<in> set es \<Longrightarrow> v = v'"
  by (induction es) force+

lemma Get_miss_same: "Get c k = (None, c') \<Longrightarrow> c' = c \<and> k \<notin> fst ` set (entries c)"
  by (auto simp: Get_def map_of_eq_None_iff split: option.splits)

lemma Get_hit:
  "Get c k = (Some v, c') \<Longrightarrow>
     (k, v) \<in> set (entries c) \<and> capacity c' = capacity c \<and>
     entries c' = (k, v) # filter (\<lambda>e. fst e \<noteq> k) (entries c)"
  by (auto simp: Get_def split: option.splits dest: map_of_SomeD)

lemma GetKeyFromValue_None: "GetKeyFromValue c v = None \<longleftrightarrow> v \<notin> snd ` set (entries c)"
  by (force simp: GetKeyFromValue_def find_None_iff)



lemma Put_new:
  "k \<notin> fst ` set (entries c) \<Longrightarrow>
     entries (Put c k v) =
       (k, v) # (if capacity c \<le> int (length (entries c)) then butlast (entries c) else entries c) \<and>
     capacity (Put c k v) = capacity c"
  by (simp add: Put_def)

lemma distinct_map_butlast: "distinct (map f xs) \<Longrightarrow> distinct (map f (butlast xs))"
  by (simp add: map_butlast distinct_butlast)

lemma move_front_distinct_fst:
  "distinct (map fst es) \<Longrightarrow> distinct (map fst ((k, v) # filter (\<lambda>e. fst e \<noteq> k) es))"
  by (auto simp: distinct_map_filter)

lemma move_front_distinct_snd:
  assumes "distinct (map snd es)" "(k, v) \<in> set es"
  shows "distinct (map snd ((k, v) # filter (\<lambda>e. fst e \<noteq> k) es))"
proof -
  have "v \<notin> snd ` set (filter (\<lambda>e. fst e \<noteq> k) es)"
    using assms by (auto dest: distinct_snd_key)
  then show ?thesis using assms(1) by (simp add: distinct_map_filter)
qed

lemma put_new_distinct_fst:
  assumes "distinct (map fst es)" "k \<notin> fst ` set es"
  shows "distinct (map fst ((k, v) # (if b then butlast es else es)))"
  using assms by (auto simp: distinct_map_butlast dest: in_set_butlastD)

lemma put_new_distinct_snd:
  assumes "distinct (map snd es)" "v \<notin> snd ` set es"
  shows "distinct (map snd ((k, v) # (if b then butlast es else es)))"
  using assms by (auto simp: distinct_map_butlast dest: in_set_butlastD)

subsection \<open>The loop\<close>

lemma allocLoop_Some_iter:
  assumes "allocLoop c r n = Some y"
  shows "\<exists>k. fst y = IPAddress (Bytes ((advance r ^^ k) n)) \<and> snd y = (advance r ^^ Suc k) n \<and>
             GetKeyFromValue c (fst y) = None \<and>
             (\<forall>j<k. GetKeyFromValue c (IPAddress (Bytes ((advance r ^^ j) n))) \<noteq> None)"
proof -
  let ?P = "\<lambda>c r (n::nat) y. \<exists>k. fst y = IPAddress (Bytes ((advance r ^^ k) n)) \<and>
              snd y = (advance r ^^ Suc k) n \<and> GetKeyFromValue c (fst y) = None \<and>
              (\<forall>j<k. GetKeyFromValue c (IPAddress (Bytes ((advance r ^^ j) n))) \<noteq> None)"
  show ?thesis
  proof (rule allocLoop.raw_induct [where P = ?P, OF _ assms])
    fix f c r n y
    assume IH: "\<And>c r n y. f c r n = Some y \<Longrightarrow> ?P c r n y"
      and eq: "(case GetKeyFromValue c (IPAddress (Bytes n)) of
                  None \<Rightarrow> Some (IPAddress (Bytes n), advance r n)
                | Some k \<Rightarrow> f c r (advance r n)) = Some y"
    show "?P c r n y"
    proof (cases "GetKeyFromValue c (IPAddress (Bytes n))")
      case None
      with eq have y: "y = (IPAddress (Bytes n), advance r n)" by simp
      show ?thesis
        by (rule exI [of _ 0]) (simp add: y None)
    next
      case (Some d)
      with eq have "f c r (advance r n) = Some y" by simp
      then obtain k where k: "fst y = IPAddress (Bytes ((advance r ^^ k) (advance r n)))"
        "snd y = (advance r ^^ Suc k) (advance r n)" "GetKeyFromValue c (fst y) = None"
        "\<forall>j<k. GetKeyFromValue c (IPAddress (Bytes ((advance r ^^ j) (advance r n)))) \<noteq> None"
        using IH by blast
      have "\<forall>j<Suc k. GetKeyFromValue c (IPAddress (Bytes ((advance r ^^ j) n))) \<noteq> None"
      proof (intro allI impI)
        fix j assume j: "j < Suc k"
        show "GetKeyFromValue c (IPAddress (Bytes ((advance r ^^ j) n))) \<noteq> None"
        proof (cases j)
          case 0
          then show ?thesis using Some by simp
        next
          case (Suc i)
          then have "i < k" using j by simp
          then show ?thesis using k(4) Suc by (simp add: funpow_swap1)
        qed
      qed
      then show ?thesis
        using k(1-3) by (intro exI [of _ "Suc k"]) (simp add: funpow_swap1)
    qed
  qed
qed

lemma allocLoop_iter_Some:
  "GetKeyFromValue c (IPAddress (Bytes ((advance r ^^ k) n))) = None \<Longrightarrow>
   (\<forall>j<k. GetKeyFromValue c (IPAddress (Bytes ((advance r ^^ j) n))) \<noteq> None) \<Longrightarrow>
   allocLoop c r n = Some (IPAddress (Bytes ((advance r ^^ k) n)), (advance r ^^ Suc k) n)"
proof (induction k arbitrary: n)
  case 0
  then show ?case by (subst allocLoop.simps) simp
next
  case (Suc k)
  have live: "GetKeyFromValue c (IPAddress (Bytes n)) \<noteq> None"
    using Suc.prems(2) [rule_format, of 0] by simp
  have "allocLoop c r (advance r n) =
      Some (IPAddress (Bytes ((advance r ^^ k) (advance r n))), (advance r ^^ Suc k) (advance r n))"
  proof (rule Suc.IH)
    show "GetKeyFromValue c (IPAddress (Bytes ((advance r ^^ k) (advance r n)))) = None"
      using Suc.prems(1) by (simp add: funpow_swap1)
    show "\<forall>j<k. GetKeyFromValue c (IPAddress (Bytes ((advance r ^^ j) (advance r n)))) \<noteq> None"
      using Suc.prems(2) [rule_format, of "Suc _"] by (simp add: funpow_swap1)
  qed
  then show ?case
    using live by (subst allocLoop.simps) (auto simp: funpow_swap1)
qed

subsection \<open>The cursor and the pool\<close>

lemma of_nat_byte_nonzero: "0 < n \<Longrightarrow> n < 256 \<Longrightarrow> (of_nat n :: byte) \<noteq> 0"
proof
  assume n: "0 < n" "n < 256" and z: "(of_nat n :: byte) = 0"
  have "unat (of_nat n :: byte) = n" using n by (simp add: unat_of_nat)
  with z n show False by simp
qed

lemma Bytes_ne_hd: "0 < n \<Longrightarrow> Bytes n \<noteq> [] \<and> hd (Bytes n) \<noteq> 0"
proof (induction n rule: Bytes.induct)
  case (1 n)
  then have n0: "n \<noteq> 0" by simp
  show ?case
  proof (cases "n div 256 = 0")
    case True
    then have lt: "n < 256" by (simp add: div_eq_0_iff)
    have "Bytes n = [of_nat n]"
      using True lt by (simp add: Bytes_pos [OF n0] Bytes_0)
    then show ?thesis using of_nat_byte_nonzero [OF "1.prems" lt] by simp
  next
    case False
    then have "Bytes (n div 256) \<noteq> [] \<and> hd (Bytes (n div 256)) \<noteq> 0"
      using "1.IH" n0 by simp
    then show ?thesis by (simp add: Bytes_pos [OF n0])
  qed
qed

lemma To4_Bytes: "To4 (Bytes m) = (if length (Bytes m) = 4 then Some (Bytes m) else None)"
proof (cases "length (Bytes m) = 16")
  case True
  then have "0 < m" using length_Bytes_16 [of m] by simp
  then have "hd (Bytes m) \<noteq> 0" "Bytes m \<noteq> []" using Bytes_ne_hd by simp_all
  then have "take 12 (Bytes m) \<noteq> v4InV6Prefix"
    by (cases "Bytes m") (auto simp: v4InV6Prefix_def)
  then show ?thesis using True by (simp add: To4_def)
next
  case False
  then show ?thesis by (simp add: To4_def)
qed

lemma Contains_Bytes_length: "Contains r (Bytes m) \<Longrightarrow> length (Bytes m) = 4"
  by (auto simp: Contains_def To4_Bytes Let_def split: if_splits)

lemma Contains_self: "pool_wf r \<Longrightarrow> Contains r (IP r)"
  by (simp add: Contains_def pool_wf_def To4_def)

lemma advance_in_range: "pool_wf r \<Longrightarrow> cursor_in_range r (advance r n)"
proof (cases "Contains r (Bytes (n + 1))")
  case True
  then have l: "length (Bytes (n + 1)) = 4" by (rule Contains_Bytes_length)
  have "n + 1 < 4294967296" using l unfolding length_Bytes_4 by simp
  moreover have "Bytes (n + 1) = bytes4 (n + 1)" using l by (rule Bytes_eq_bytes4)
  ultimately show ?thesis using True by (simp add: advance_def cursor_in_range_def)
next
  case False
  assume wf: "pool_wf r"
  then have "length (IP r) = 4" by (simp add: pool_wf_def)
  then show ?thesis
    using False wf by (simp add: advance_def cursor_in_range_def SetBytes_lt bytes4_SetBytes Contains_self)
qed

lemma funpow_advance_in_range:
  "pool_wf r \<Longrightarrow> cursor_in_range r n \<Longrightarrow> cursor_in_range r ((advance r ^^ k) n)"
  by (cases k) (simp_all add: advance_in_range)

lemma IPAddress_Bytes_in_range:
  assumes "cursor_in_range r m" "IPAddress (Bytes m) = Some a"
  shows "a = IPv4Address (Bytes m) \<and> Contains r (Bytes m)"
proof -
  from assms(1) have m: "m < 4294967296" "Contains r (bytes4 m)"
    by (simp_all add: cursor_in_range_def)
  have "length (Bytes m) \<noteq> 16" using length_Bytes_16 [of m] m(1) by auto
  with assms(2) have l: "length (Bytes m) = 4" and a: "a = IPv4Address (Bytes m)"
    by (auto simp: IPAddress_def split: if_splits)
  show ?thesis using m(2) a Bytes_eq_bytes4 [OF l] by simp
qed

subsection \<open>What initialization establishes\<close>

lemma parseIPv4_loop_length: "parseIPv4_loop i s = Some p \<Longrightarrow> length p = 4 - i"
proof (induction i s arbitrary: p rule: parseIPv4_loop.induct)
  case (1 i s)
  show ?case
  proof (cases "4 \<le> i")
    case True
    with "1.prems" show ?thesis
      by (simp add: parseIPv4_loop.simps [of i s] split: if_splits)
  next
    case False
    define s1 where "s1 = (if 0 < i then tl s else s)"
    obtain n c ok where d: "dtoi s1 = (n, c, ok)" by (cases "dtoi s1") auto
    from "1.prems" False d obtain p' where
      p': "parseIPv4_loop (i + 1) (drop c s1) = Some p'" "p = of_nat n # p'"
      and c: "s \<noteq> []" "\<not> (0 < i \<and> hd s \<noteq> CHR ''.'')" "\<not> (\<not> ok \<or> 255 < n)"
        "\<not> (1 < c \<and> hd s1 = CHR ''0'')"
      by (auto simp: parseIPv4_loop.simps [of i s] s1_def [symmetric] Let_def split: if_splits)
    have "length p' = 4 - (i + 1)"
      using "1.IH" [OF False c(1) c(2) s1_def d [symmetric] refl c(3) c(4) p'(1)] .
    then show ?thesis using False p'(2) by simp
  qed
qed

lemma length_CIDRMask_bytes: "length (CIDRMask_bytes n l) = l"
  by (induction n l rule: CIDRMask_bytes.induct) (subst CIDRMask_bytes.simps, simp)

lemma ParseCIDR_Some:
  assumes "ParseCIDR s = Some (ip, r)"
  shows "\<exists>ip4 ones. ip = v4InV6Prefix @ ip4 \<and> length ip4 = 4 \<and> ones \<le> 32 \<and>
           Mask r = CIDRMask_bytes ones 4 \<and> IP r = MaskIP ip4 (Mask r)"
proof -
  define addr where "addr = takeWhile (\<lambda>c. c \<noteq> CHR ''/'') s"
  define msk where "msk = tl (dropWhile (\<lambda>c. c \<noteq> CHR ''/'') s)"
  obtain n i ok where d: "dtoi msk = (n, i, ok)" by (cases "dtoi msk") auto
  from assms obtain p where p: "parseIPv4_loop 0 addr = Some p" "ip = v4InV6Prefix @ p"
    and n: "n \<le> 32" and r: "r = \<lparr>IP = MaskIP (drop 12 ip) (CIDRMask_bytes n 4), Mask = CIDRMask_bytes n 4\<rparr>"
    by (auto simp: ParseCIDR_def parseIPv4_def addr_def [symmetric] msk_def [symmetric] d Let_def
        CIDRMask_def split: if_splits option.splits)
  have "length p = 4" using parseIPv4_loop_length [OF p(1)] by simp
  then show ?thesis
    using p(2) n r by (intro exI [of _ p] exI [of _ n]) (simp add: v4InV6Prefix_def)
qed

lemma To4_v4InV6: "length ip4 = 4 \<Longrightarrow> To4 (v4InV6Prefix @ ip4) = Some ip4"
  by (simp add: To4_def v4InV6Prefix_def)

lemma map2_AND_idem: "map2 (AND) (map2 (AND) xs ms) ms = map2 (AND) xs (ms :: byte list)"
proof (induction xs arbitrary: ms)
  case Nil
  show ?case by simp
next
  case (Cons x xs)
  show ?case by (cases ms) (simp_all add: Cons.IH and.assoc)
qed

lemma initialize_Some:
  assumes "initialize h0 s n = Inr h"
  shows "\<exists>ip4 ones. ones \<le> 32 \<and> length ip4 = 4 \<and>
           ipRange h = Some \<lparr>IP = MaskIP ip4 (CIDRMask_bytes ones 4), Mask = CIDRMask_bytes ones 4\<rparr> \<and>
           nextIP h = Some (SetBytes ip4) \<and> domainToIP h = Some (NewLru n) \<and>
           \<not> Log2_ge n (rooms \<lparr>IP = MaskIP ip4 (CIDRMask_bytes ones 4), Mask = CIDRMask_bytes ones 4\<rparr>) \<and>
           config h = config h0"
proof -
  from assms obtain ip r where pr: "ParseCIDR s = Some (ip, r)" and l: "\<not> Log2_ge n (rooms r)"
    and h: "h = h0\<lparr>domainToIP := Some (NewLru n), ipRange := Some r,
                 nextIP := Some (SetBytes (case To4 ip of None \<Rightarrow> ip | Some ip4 \<Rightarrow> ip4))\<rparr>"
    by (auto simp: initialize_cases split: option.splits if_splits)
  from ParseCIDR_Some [OF pr] obtain ip4 ones where
    f: "ip = v4InV6Prefix @ ip4" "length ip4 = 4" "ones \<le> 32"
      "Mask r = CIDRMask_bytes ones 4" "IP r = MaskIP ip4 (Mask r)"
    by blast
  have r: "r = \<lparr>IP = MaskIP ip4 (CIDRMask_bytes ones 4), Mask = CIDRMask_bytes ones 4\<rparr>"
    using f(4,5) by (cases r) simp
  show ?thesis
    using f(2,3) l
    by (intro exI [of _ ip4] exI [of _ ones]) (simp add: h f(1) To4_v4InV6 r [symmetric])
qed

lemma pool_wf_cidr:
  "length ip4 = 4 \<Longrightarrow> pool_wf \<lparr>IP = MaskIP ip4 (CIDRMask_bytes ones 4), Mask = CIDRMask_bytes ones 4\<rparr>"
  by (simp add: pool_wf_def MaskIP_def length_CIDRMask_bytes map2_AND_idem)

lemma Contains_cidr_self:
  "length ip4 = 4 \<Longrightarrow> Contains \<lparr>IP = MaskIP ip4 (CIDRMask_bytes ones 4), Mask = CIDRMask_bytes ones 4\<rparr> ip4"
  by (simp add: Contains_def To4_def MaskIP_def length_CIDRMask_bytes map2_AND_idem)

lemma initialize_inv: "initialize h0 s n = Inr h \<Longrightarrow> holder_inv h"
proof -
  assume "initialize h0 s n = Inr h"
  from initialize_Some [OF this] obtain ip4 ones where
    f: "length ip4 = 4"
      "ipRange h = Some \<lparr>IP = MaskIP ip4 (CIDRMask_bytes ones 4), Mask = CIDRMask_bytes ones 4\<rparr>"
      "nextIP h = Some (SetBytes ip4)" "domainToIP h = Some (NewLru n)"
    by blast
  show ?thesis
    unfolding holder_inv_def
    using f by (simp add: pool_wf_cidr cursor_in_range_def SetBytes_lt bytes4_SetBytes
        Contains_cidr_self NewLru_def)
qed

subsection \<open>What every call preserves\<close>

lemma GetFakeIPForDomain_cases:
  assumes "GetFakeIPForDomain h d = Some (Inr (as, h'))"
  obtains (hit) c a where "domainToIP h = Some c" "(d, Some a) \<in> set (entries c)" "as = [Some a]"
      "h' = h\<lparr>domainToIP := Some (c\<lparr>entries := (d, Some a) # filter (\<lambda>e. fst e \<noteq> d) (entries c)\<rparr>)\<rparr>"
  | (miss) c r n ip n' where "domainToIP h = Some c" "ipRange h = Some r" "nextIP h = Some n"
      "d \<notin> fst ` set (entries c)" "allocLoop c r n = Some (ip, n')" "as = [ip]"
      "h' = h\<lparr>nextIP := Some n', domainToIP := Some (Put c d ip)\<rparr>"
proof -
  from assms obtain c where c: "domainToIP h = Some c"
    by (auto simp: GetFakeIPForDomain_def split: option.splits)
  obtain v c' where g: "Get c d = (v, c')" by (cases "Get c d") auto
  show ?thesis
  proof (cases v)
    case None
    with g have m: "d \<notin> fst ` set (entries c)" using Get_miss_same by fastforce
    from assms c g None obtain n r ip n' where
      "nextIP h = Some n" "ipRange h = Some r" "allocLoop c r n = Some (ip, n')" "as = [ip]"
      "h' = h\<lparr>nextIP := Some n', domainToIP := Some (Put c d ip)\<rparr>"
      by (auto simp: GetFakeIPForDomain_def split: option.splits)
    with c m show ?thesis by (intro miss)
  next
    case (Some v')
    from assms c g Some obtain a where a: "v' = Some a" "as = [Some a]"
      "h' = h\<lparr>domainToIP := Some c'\<rparr>"
      by (auto simp: GetFakeIPForDomain_def split: option.splits)
    from Get_hit [OF g [unfolded Some a(1)]] have
      "(d, Some a) \<in> set (entries c)"
      "c' = c\<lparr>entries := (d, Some a) # filter (\<lambda>e. fst e \<noteq> d) (entries c)\<rparr>"
      by (auto simp: Get_def split: option.splits)
    with c a show ?thesis by (intro hit) auto
  qed
qed

lemma GetFakeIPForDomain_inv:
  assumes inv: "holder_inv h" and call: "GetFakeIPForDomain h d = Some (Inr (as, h'))"
  shows "holder_inv h' \<and> ipRange h' = ipRange h \<and> config h' = config h"
  using call
proof (cases rule: GetFakeIPForDomain_cases)
  case (hit c a)
  from inv hit(1) obtain r n where
    i: "ipRange h = Some r" "nextIP h = Some n" "pool_wf r" "cursor_in_range r n"
      "distinct (map fst (entries c))" "distinct (map snd (entries c))"
      "\<forall>e \<in> set (entries c). \<forall>a. snd e = Some a \<longrightarrow> (\<exists>bs. a = IPv4Address bs \<and> Contains r bs)"
    by (auto simp: holder_inv_def)
  have "distinct (map fst ((d, Some a) # filter (\<lambda>e. fst e \<noteq> d) (entries c)))"
    using i(5) by (rule move_front_distinct_fst)
  moreover have "distinct (map snd ((d, Some a) # filter (\<lambda>e. fst e \<noteq> d) (entries c)))"
    using i(6) hit(2) by (rule move_front_distinct_snd)
  moreover have "\<forall>e \<in> set ((d, Some a) # filter (\<lambda>e. fst e \<noteq> d) (entries c)). \<forall>a. snd e = Some a \<longrightarrow>
      (\<exists>bs. a = IPv4Address bs \<and> Contains r bs)"
    using i(7) hit(2) by auto
  ultimately show ?thesis
    unfolding holder_inv_def using i(1-4) by (simp add: hit(4))
next
  case (miss c r n ip n')
  from inv miss(1-3) have
    i: "pool_wf r" "cursor_in_range r n"
      "distinct (map fst (entries c))" "distinct (map snd (entries c))"
      "\<forall>e \<in> set (entries c). \<forall>a. snd e = Some a \<longrightarrow> (\<exists>bs. a = IPv4Address bs \<and> Contains r bs)"
    by (auto simp: holder_inv_def)
  from allocLoop_Some_iter [OF miss(5)] obtain k where
    k: "ip = IPAddress (Bytes ((advance r ^^ k) n))" "n' = (advance r ^^ Suc k) n"
      "GetKeyFromValue c ip = None"
    by auto
  have m: "cursor_in_range r ((advance r ^^ k) n)"
    using i(1,2) by (rule funpow_advance_in_range)
  have n': "cursor_in_range r n'"
    unfolding k(2) using i(1,2) by (rule funpow_advance_in_range)
  have free: "ip \<notin> snd ` set (entries c)"
    using k(3) by (simp add: GetKeyFromValue_None)
  have ip: "\<forall>a. ip = Some a \<longrightarrow> (\<exists>bs. a = IPv4Address bs \<and> Contains r bs)"
    using IPAddress_Bytes_in_range [OF m] k(1) by auto
  let ?es = "(d, ip) # (if capacity c \<le> int (length (entries c)) then butlast (entries c) else entries c)"
  have e: "entries (Put c d ip) = ?es"
    using Put_new [OF miss(4)] by simp
  have "distinct (map fst ?es)"
    using i(3) miss(4) by (rule put_new_distinct_fst)
  moreover have "distinct (map snd ?es)"
    using i(4) free by (rule put_new_distinct_snd)
  moreover have "\<forall>e \<in> set ?es. \<forall>a. snd e = Some a \<longrightarrow> (\<exists>bs. a = IPv4Address bs \<and> Contains r bs)"
    using i(5) ip by (auto dest: in_set_butlastD)
  ultimately show ?thesis
    unfolding holder_inv_def using i(1) n' miss(2) by (simp add: miss(7) e)
qed

lemma run_inv:
  "holder_inv h \<Longrightarrow> run h cs = Some (Inr h') \<Longrightarrow>
     holder_inv h' \<and> ipRange h' = ipRange h \<and> config h' = config h"
proof (induction h cs rule: run.induct)
  case (1 h)
  then show ?case by simp
next
  case (2 h d cs)
  from "2.prems"(2) obtain as h1 where
    c: "GetFakeIPForDomain h d = Some (Inr (as, h1))" and r: "run h1 cs = Some (Inr h')"
    by (auto split: option.splits sum.splits)
  from GetFakeIPForDomain_inv [OF "2.prems"(1) c] have
    h1: "holder_inv h1" "ipRange h1 = ipRange h" "config h1 = config h" by simp_all
  from "2.IH" [OF c refl refl h1(1) r] h1 show ?case by simp
next
  case (3 h a cs)
  from "3.prems"(2) obtain x where
    c: "GetDomainFromFakeDNS h a = Inr x" and r: "run h cs = Some (Inr h')"
    by (auto split: sum.splits)
  from "3.IH" [OF c "3.prems"(1) r] show ?case .
qed

subsection \<open>The bijection between domains and addresses\<close>

lemma run_append:
  "run h (cs1 @ cs2) =
     (case run h cs1 of None \<Rightarrow> None | Some (Inl e) \<Rightarrow> Some (Inl e) | Some (Inr h1) \<Rightarrow> run h1 cs2)"
  by (induction h cs1 rule: run.induct) (auto split: option.splits sum.splits)

lemma run_scenario:
  "run \<lparr>domainToIP = Some (NewLru 2), nextIP = Some 4026531840, ipRange = Some \<lparr>IP = [240, 0, 0, 0], Mask = [255, 0, 0, 0]\<rparr>, config = None\<rparr>
     [AllocCall ''a.com'', AllocCall ''b.com'', ReverseCall (Some (IPv4Address [240, 0, 0, 0])), AllocCall ''c.com'']
   = Some (Inr \<lparr>domainToIP = Some \<lparr>capacity = 2, entries = [(''c.com'', Some (IPv4Address [240, 0, 0, 2])), (''b.com'', Some (IPv4Address [240, 0, 0, 1]))]\<rparr>, nextIP = Some 4026531843, ipRange = Some \<lparr>IP = [240, 0, 0, 0], Mask = [255, 0, 0, 0]\<rparr>, config = None\<rparr>)"
  by (simp add: scenario_step1 scenario_step2 scenario_step3 scenario_reverse)

lemma holder_inv_bijection:
  assumes "holder_inv h"
  shows "partial_bijection (live h) \<and>
         (\<exists>c. domainToIP h = Some c \<and> distinct (map fst (entries c)) \<and> distinct (map snd (entries c)))"
proof -
  from assms obtain c where c: "domainToIP h = Some c" "distinct (map fst (entries c))"
    "distinct (map snd (entries c))"
    by (auto simp: holder_inv_def)
  have "partial_bijection (set (entries c))"
    unfolding partial_bijection_def
    using distinct_fst_value [OF c(2)] distinct_snd_key [OF c(3)] by blast
  then show ?thesis using c by (simp add: live_def)
qed

text \<open>
  Claim C1. After any sequence of \<^verbatim>\<open>GetFakeIPForDomain\<close> and
  \<^verbatim>\<open>GetDomainFromFakeDNS\<close> calls on an initialized Holder, and at every point
  between two of its calls, the live mappings form a partial bijection: no
  domain has two addresses and no address has two domains (the cache holds no
  key twice and no value twice).
\<close>

theorem bijection_invariant:
  assumes "initialize h0 s n = Inr h" and "run h (cs1 @ cs2) = Some (Inr h')"
  shows "\<exists>h1. run h cs1 = Some (Inr h1) \<and> partial_bijection (live h1) \<and>
           (\<exists>c. domainToIP h1 = Some c \<and> distinct (map fst (entries c)) \<and>
                distinct (map snd (entries c)))"
proof -
  from assms(2) obtain h1 where h1: "run h cs1 = Some (Inr h1)"
    by (auto simp: run_append split: option.splits sum.splits)
  have "holder_inv h" using assms(1) by (rule initialize_inv)
  then have "holder_inv h1" using h1 run_inv by blast
  then show ?thesis using h1 holder_inv_bijection by blast
qed

theorem bijection_invariant_witness:
  "\<exists>h h1. initialize (NewFakeDNSHolderConfigOnly None) ''240.0.0.0/8'' 2 = Inr h \<and>
     run h [AllocCall ''a.com'', AllocCall ''b.com'',
            ReverseCall (Some (IPv4Address [240, 0, 0, 0])), AllocCall ''c.com''] = Some (Inr h1) \<and>
     live h1 = {(''c.com'', Some (IPv4Address [240, 0, 0, 2])), (''b.com'', Some (IPv4Address [240, 0, 0, 1]))} \<and>
     partial_bijection (live h1)"
proof -
  let ?h = "\<lparr>domainToIP = Some (NewLru 2), nextIP = Some 4026531840,
             ipRange = Some \<lparr>IP = [240, 0, 0, 0], Mask = [255, 0, 0, 0]\<rparr>, config = None\<rparr>"
  let ?cs = "[AllocCall ''a.com'', AllocCall ''b.com'',
              ReverseCall (Some (IPv4Address [240, 0, 0, 0])), AllocCall ''c.com'']"
  let ?h1 = "\<lparr>domainToIP = Some \<lparr>capacity = 2, entries = [(''c.com'', Some (IPv4Address [240, 0, 0, 2])),
               (''b.com'', Some (IPv4Address [240, 0, 0, 1]))]\<rparr>, nextIP = Some 4026531843,
              ipRange = Some \<lparr>IP = [240, 0, 0, 0], Mask = [255, 0, 0, 0]\<rparr>, config = None\<rparr>"
  have i: "initialize (NewFakeDNSHolderConfigOnly None) ''240.0.0.0/8'' 2 = Inr ?h"
    by (simp add: init_8_2 NewFakeDNSHolderConfigOnly_def)
  have r: "run ?h ?cs = Some (Inr ?h1)" by (rule run_scenario)
  then have r': "run ?h (?cs @ []) = Some (Inr ?h1)" by simp
  from bijection_invariant [OF i r'] have "partial_bijection (live ?h1)"
    unfolding r by simp
  moreover have "live ?h1 = {(''c.com'', Some (IPv4Address [240, 0, 0, 2])),
      (''b.com'', Some (IPv4Address [240, 0, 0, 1]))}"
    by (simp add: live_def)
  ultimately show ?thesis using i r by blast
qed

subsection \<open>Forward and reverse lookups\<close>









subsection \<open>Masks\<close>

lemma lt8_cases: "n < 8 \<Longrightarrow> n \<in> {7, 6, 5, 4, 3, 2, 1, 0 :: nat}"
  by auto

lemma mask_byte_push_drop:
  "n \<le> 8 \<Longrightarrow> (x AND NOT (drop_bit n 0xff) :: byte) = push_bit (8 - n) (drop_bit (8 - n) x)"
proof -
  assume n: "n \<le> 8"
  have ff: "(0xff :: byte) = - 1" by simp
  show ?thesis
    unfolding ff
    by (rule bit_eqI) (use n in \<open>auto simp: bit_simps\<close>)
qed

lemma unat_mask_byte_lt: "unat (x::byte) div 2 ^ j * 2 ^ j < 256"
  using unat_byte_lt [of x] div_times_less_eq_dividend [of "unat x" "2 ^ j"] by linarith

lemma unat_mask_byte:
  assumes "n \<le> 8"
  shows "unat (x AND NOT (drop_bit n 0xff) :: byte) = unat x div 2 ^ (8 - n) * 2 ^ (8 - n)"
proof -
  have "unat (push_bit (8 - n) (drop_bit (8 - n) x) :: byte) =
      take_bit 8 (push_bit (8 - n) (drop_bit (8 - n) (unat x)))"
    using unat_byte_lt [of x]
    by (simp add: unsigned_push_bit_eq unsigned_drop_bit_eq take_bit_nat_eq_self)
  also have "\<dots> = unat x div 2 ^ (8 - n) * 2 ^ (8 - n)"
    using unat_mask_byte_lt [of x "8 - n"]
    by (simp add: push_bit_eq_mult drop_bit_eq_div take_bit_nat_eq_self)
  finally show ?thesis by (simp add: mask_byte_push_drop [OF assms])
qed

lemma unat_mask_ff: "unat (x AND 0xff :: byte) = unat x"
proof -
  have ff: "(0xff :: byte) = - 1" by simp
  have "x AND (- 1) = x" by simp
  then show ?thesis unfolding ff by (rule arg_cong)
qed

lemma countOnes_mask: "n < 8 \<Longrightarrow> countOnes 8 (NOT (drop_bit n 0xff)) = (n, 0)"
  by (drule lt8_cases, simp only: insert_iff empty_iff, elim disjE FalseE; hypsubst;
      simp add: countOnes.simps)

lemma mask_byte_not_ff: "n < 8 \<Longrightarrow> (NOT (drop_bit n 0xff) :: byte) \<noteq> 0xff"
  by (drule lt8_cases) auto

lemma CIDRMask_bytes_0: "set (CIDRMask_bytes 0 l) \<subseteq> {0}"
  by (induction l) (subst CIDRMask_bytes.simps, simp)+

lemma simpleMaskLength_CIDRMask: "n \<le> 8 * l \<Longrightarrow> simpleMaskLength (CIDRMask_bytes n l) = Some n"
proof (induction l arbitrary: n)
  case 0
  then show ?case by (subst CIDRMask_bytes.simps) simp
next
  case (Suc l)
  show ?case
  proof (cases "8 \<le> n")
    case True
    then have "n - 8 \<le> 8 * l" using Suc.prems by simp
    then have "simpleMaskLength (CIDRMask_bytes (n - 8) l) = Some (n - 8)" by (rule Suc.IH)
    then show ?thesis using True by (subst CIDRMask_bytes.simps) simp
  next
    case False
    then have n: "n < 8" by simp
    have z: "\<not> (\<exists>b \<in> set (CIDRMask_bytes 0 l). b \<noteq> 0)"
      using CIDRMask_bytes_0 [of l] by auto
    show ?thesis
      using n z by (subst CIDRMask_bytes.simps) (simp add: countOnes_mask mask_byte_not_ff)
  qed
qed

lemma Size_CIDRMask: "n \<le> 32 \<Longrightarrow> Size (CIDRMask_bytes n 4) = (n, 32)"
  by (simp add: Size_def simpleMaskLength_CIDRMask length_CIDRMask_bytes)

lemma rooms_cidr:
  "ones \<le> 32 \<Longrightarrow> rooms \<lparr>IP = ip, Mask = CIDRMask_bytes ones 4\<rparr> = 32 - ones"
  by (simp add: rooms_def Size_CIDRMask)

lemma foldl_SetBytes:
  "foldl (\<lambda>a b. a * 256 + unat (b :: byte)) a xs =
     a * 256 ^ length xs + foldl (\<lambda>a b. a * 256 + unat b) 0 xs"
proof (induction xs arbitrary: a)
  case Nil
  show ?case by simp
next
  case (Cons x xs)
  define f where "f = (\<lambda>a (b :: byte). a * 256 + unat b)"
  have 1: "foldl f (a * 256 + unat x) xs = (a * 256 + unat x) * 256 ^ length xs + foldl f 0 xs"
    unfolding f_def by (rule Cons.IH)
  have 2: "foldl f (unat x) xs = unat x * 256 ^ length xs + foldl f 0 xs"
    unfolding f_def by (rule Cons.IH)
  have "foldl f a (x # xs) = a * 256 ^ length (x # xs) + foldl f 0 (x # xs)"
    using 1 2 by (simp add: f_def algebra_simps)
  then show ?case by (simp only: f_def)
qed

lemma SetBytes_Nil: "SetBytes [] = 0"
  by (simp add: SetBytes_def)

lemma SetBytes_Cons: "SetBytes (x # xs) = unat x * 256 ^ length xs + SetBytes xs"
  using foldl_SetBytes [of "unat x" xs] by (simp add: SetBytes_def)

lemma SetBytes_bound: "SetBytes xs < 256 ^ length xs"
proof (induction xs)
  case Nil
  show ?case by (simp add: SetBytes_Nil)
next
  case (Cons x xs)
  have "unat x * 256 ^ length xs + SetBytes xs < (unat x + 1) * 256 ^ length xs"
    using Cons.IH by (simp add: algebra_simps)
  also have "\<dots> \<le> 256 * 256 ^ length xs"
    using unat_byte_lt [of x] by (intro mult_right_mono) simp_all
  finally show ?case by (simp add: SetBytes_Cons)
qed

lemma pow256: "(256::nat) ^ l = 2 ^ (8 * l)"
proof -
  have "(256::nat) = 2 ^ 8" by simp
  then show ?thesis by (simp only: power_mult)
qed

lemma div_split_high:
  fixes a v :: nat
  assumes "k \<le> m"
  shows "(a * 2 ^ m + v) div 2 ^ k * 2 ^ k = a * 2 ^ m + v div 2 ^ k * 2 ^ k"
proof -
  define c :: nat where "c = 2 ^ (m - k)"
  define b :: nat where "b = 2 ^ k"
  have b: "b \<noteq> 0" by (simp add: b_def)
  have m: "(2::nat) ^ m = c * b"
    using assms by (simp add: power_add [symmetric] c_def b_def)
  have "(a * c * b + v) div b = a * c + v div b"
    using b by simp
  then have "(a * c * b + v) div b * b = a * c * b + v div b * b"
    by (simp add: algebra_simps)
  then show ?thesis
    unfolding m b_def [symmetric] by (simp add: mult.assoc)
qed

lemma div_split_low:
  fixes a v :: nat
  assumes "v < 2 ^ m"
  shows "(a * 2 ^ m + v) div 2 ^ (j + m) = a div 2 ^ j"
proof -
  have "(a * 2 ^ m + v) div 2 ^ m = a" using assms by simp
  then show ?thesis
    by (simp add: power_add mult.commute [of "2 ^ j"] div_mult2_eq)
qed

lemma SetBytes_masked:
  "length xs = l \<Longrightarrow> n \<le> 8 * l \<Longrightarrow>
     SetBytes (map2 (AND) xs (CIDRMask_bytes n l)) =
       SetBytes xs div 2 ^ (8 * l - n) * 2 ^ (8 * l - n)"
proof (induction xs arbitrary: n l)
  case Nil
  then show ?case by (simp add: SetBytes_Nil)
next
  case (Cons x xs)
  define l' where "l' = length xs"
  have l: "l = Suc l'" using Cons.prems(1) by (simp add: l'_def)
  have len: "length (map2 (AND) xs (CIDRMask_bytes k l')) = l'" for k
    by (simp add: l'_def length_CIDRMask_bytes)
  have bound: "SetBytes xs < 2 ^ (8 * l')"
    using SetBytes_bound [of xs] by (simp add: l'_def pow256)
  show ?case
  proof (cases "8 \<le> n")
    case True
    have n': "n - 8 \<le> 8 * l'" using Cons.prems(2) l by simp
    have k: "8 * l - n = 8 * l' - (n - 8)" using True l by simp
    have k_le: "8 * l - n \<le> 8 * l'" using True l by simp
    have m: "CIDRMask_bytes n l = 0xff # CIDRMask_bytes (n - 8) l'"
      using True l by (subst CIDRMask_bytes.simps) simp
    have "SetBytes (map2 (AND) (x # xs) (CIDRMask_bytes n l)) =
        unat x * 2 ^ (8 * l') + SetBytes xs div 2 ^ (8 * l - n) * 2 ^ (8 * l - n)"
      using Cons.IH [OF l'_def [symmetric] n']
      by (simp add: m SetBytes_Cons length_CIDRMask_bytes l'_def [symmetric] unat_mask_ff pow256 k)
    also have "\<dots> = (unat x * 2 ^ (8 * l') + SetBytes xs) div 2 ^ (8 * l - n) * 2 ^ (8 * l - n)"
      by (rule div_split_high [OF k_le, symmetric])
    finally show ?thesis by (simp add: SetBytes_Cons l'_def [symmetric] pow256)
  next
    case False
    then have n8: "n \<le> 8" by simp
    have k: "8 * l - n = (8 - n) + 8 * l'" using False l by simp
    have m: "CIDRMask_bytes n l = NOT (drop_bit n 0xff) # CIDRMask_bytes 0 l'"
      using False l by (subst CIDRMask_bytes.simps) simp
    have z: "SetBytes (map2 (AND) xs (CIDRMask_bytes 0 l')) = 0"
      using Cons.IH [OF l'_def [symmetric], of 0] bound by simp
    have "SetBytes (map2 (AND) (x # xs) (CIDRMask_bytes n l)) =
        unat x div 2 ^ (8 - n) * 2 ^ (8 - n) * 2 ^ (8 * l')"
      by (simp add: m SetBytes_Cons length_CIDRMask_bytes l'_def [symmetric] unat_mask_byte [OF n8] pow256 z)
    also have "\<dots> = (unat x * 2 ^ (8 * l') + SetBytes xs) div 2 ^ (8 * l - n) * 2 ^ (8 * l - n)"
      unfolding k by (simp only: div_split_low [OF bound]) (simp add: power_add)
    finally show ?thesis by (simp add: SetBytes_Cons l'_def [symmetric] pow256)
  qed
qed

subsection \<open>The pool as a range of numbers\<close>

lemma SetBytes_inj4: "length xs = 4 \<Longrightarrow> length ys = 4 \<Longrightarrow> SetBytes xs = SetBytes ys \<Longrightarrow> xs = ys"
  using bytes4_SetBytes by metis

lemma cidr_pool_wf: "cidr_pool r \<Longrightarrow> pool_wf r"
  by (auto simp: cidr_pool_def pool_wf_cidr)

lemma cidr_pool_rooms: "cidr_pool r \<Longrightarrow> rooms r \<le> 32"
  by (auto simp: cidr_pool_def rooms_cidr)

lemma mult_div_cancel_pow: "(q::nat) * 2 ^ k div 2 ^ k = q"
  by simp

lemma cidr_pool_base:
  assumes "cidr_pool r"
  shows "\<exists>q. base r = q * poolSize r"
proof -
  from assms obtain ip4 ones where
    f: "length ip4 = 4" "ones \<le> 32"
      "r = \<lparr>IP = MaskIP ip4 (CIDRMask_bytes ones 4), Mask = CIDRMask_bytes ones 4\<rparr>"
    by (auto simp: cidr_pool_def)
  have "base r = SetBytes ip4 div 2 ^ (32 - ones) * 2 ^ (32 - ones)"
    using SetBytes_masked [OF f(1), of ones] f(2) by (simp add: base_def f(3) MaskIP_def)
  moreover have "poolSize r = 2 ^ (32 - ones)"
    using f(2) by (simp add: poolSize_def f(3) rooms_cidr)
  ultimately show ?thesis by auto
qed

lemma cidr_pool_Contains:
  assumes "cidr_pool r" "length bs = 4"
  shows "Contains r bs \<longleftrightarrow> SetBytes bs div poolSize r = base r div poolSize r"
proof -
  from assms(1) obtain ip4 ones where
    f: "length ip4 = 4" "ones \<le> 32"
      "r = \<lparr>IP = MaskIP ip4 (CIDRMask_bytes ones 4), Mask = CIDRMask_bytes ones 4\<rparr>"
    by (auto simp: cidr_pool_def)
  define m where "m = CIDRMask_bytes ones 4"
  define S :: nat where "S = 2 ^ (32 - ones)"
  have S: "poolSize r = S"
    using f(2) by (simp add: poolSize_def f(3) rooms_cidr S_def)
  have v: "SetBytes (map2 (AND) xs m) = SetBytes xs div S * S" if "length xs = 4" for xs
    using SetBytes_masked [OF that, of ones] f(2) by (simp add: m_def S_def)
  have b: "base r = SetBytes ip4 div S * S"
    using v [OF f(1)] by (simp add: base_def f(3) MaskIP_def m_def)
  have len: "length (map2 (AND) xs m) = 4" if "length xs = 4" for xs
    using that by (simp add: m_def length_CIDRMask_bytes)
  have ml: "length m = 4" by (simp add: m_def length_CIDRMask_bytes)
  have "Contains r bs \<longleftrightarrow> map2 (AND) ip4 m = map2 (AND) bs m"
    using assms(2) f(1) ml
    by (simp add: Contains_def To4_def f(3) MaskIP_def m_def [symmetric] map2_AND_idem)
  also have "\<dots> \<longleftrightarrow> SetBytes (map2 (AND) ip4 m) = SetBytes (map2 (AND) bs m)"
    using SetBytes_inj4 [OF len [OF f(1)] len [OF assms(2)]] by auto
  also have "\<dots> \<longleftrightarrow> SetBytes ip4 div S * S = SetBytes bs div S * S"
    by (simp add: v [OF f(1)] v [OF assms(2)])
  also have "\<dots> \<longleftrightarrow> SetBytes bs div S = base r div S"
    by (auto simp: b S_def)
  finally show ?thesis by (simp add: S)
qed

lemma poolSize_pos: "0 < poolSize r"
  by (simp add: poolSize_def)

lemma div_eq_range:
  fixes x q S :: nat
  assumes "0 < S"
  shows "x div S = q \<longleftrightarrow> q * S \<le> x \<and> x < q * S + S"
proof -
  have "x div S = q \<longleftrightarrow> q \<le> x div S \<and> x div S < Suc q" by auto
  also have "\<dots> \<longleftrightarrow> q * S \<le> x \<and> x < Suc q * S"
    using assms by (simp add: less_eq_div_iff_mult_less_eq div_less_iff_less_mult)
  finally show ?thesis by (simp add: add.commute)
qed

lemma cidr_pool_top:
  assumes "cidr_pool r"
  shows "base r + poolSize r \<le> 4294967296"
proof -
  from cidr_pool_base [OF assms] obtain q where q: "base r = q * poolSize r" by blast
  define k where "k = rooms r"
  have k: "k \<le> 32" using cidr_pool_rooms [OF assms] by (simp add: k_def)
  have S: "poolSize r = 2 ^ k" by (simp add: poolSize_def k_def)
  have "length (IP r) = 4" using cidr_pool_wf [OF assms] by (simp add: pool_wf_def)
  then have "base r < 4294967296" by (simp add: base_def SetBytes_lt)
  then have lt: "q * 2 ^ k < 4294967296" by (simp add: q S)
  have t: "(4294967296::nat) = 2 ^ (32 - k) * 2 ^ k"
    using k by (simp add: power_add [symmetric])
  have "q * 2 ^ k < 2 ^ (32 - k) * 2 ^ k" using lt t by metis
  then have "q < 2 ^ (32 - k)" by simp
  then have "(q + 1) * 2 ^ k \<le> 2 ^ (32 - k) * 2 ^ k"
    by (intro mult_right_mono) simp_all
  then show ?thesis by (simp add: q S t [symmetric])
qed

lemma cidr_pool_in_range:
  assumes "cidr_pool r"
  shows "cursor_in_range r x \<longleftrightarrow> base r \<le> x \<and> x < base r + poolSize r"
proof -
  from cidr_pool_base [OF assms] obtain q where q: "base r = q * poolSize r" by blast
  have bq: "base r div poolSize r = q" using poolSize_pos [of r] by (simp add: q)
  show ?thesis
  proof (cases "x < 4294967296")
    case True
    have "Contains r (bytes4 x) \<longleftrightarrow> x div poolSize r = q"
      using cidr_pool_Contains [OF assms length_bytes4, of x] True
      by (simp add: SetBytes_bytes4 bq)
    also have "\<dots> \<longleftrightarrow> base r \<le> x \<and> x < base r + poolSize r"
      using div_eq_range [OF poolSize_pos, of x r q] by (simp add: q)
    finally show ?thesis using True by (simp add: cursor_in_range_def)
  next
    case False
    then show ?thesis using cidr_pool_top [OF assms] by (simp add: cursor_in_range_def)
  qed
qed

subsection \<open>The cursor wraps around\<close>

lemma advance_leaves: "\<not> cursor_in_range r (x + 1) \<Longrightarrow> advance r x = base r"
proof -
  assume out: "\<not> cursor_in_range r (x + 1)"
  have "\<not> Contains r (Bytes (x + 1))"
  proof
    assume c: "Contains r (Bytes (x + 1))"
    then have l: "length (Bytes (x + 1)) = 4" by (rule Contains_Bytes_length)
    have "x + 1 < 4294967296" using l unfolding length_Bytes_4 by simp
    moreover have "Contains r (bytes4 (x + 1))" using c Bytes_eq_bytes4 [OF l] by simp
    ultimately show False using out by (simp add: cursor_in_range_def)
  qed
  then show ?thesis by (simp add: advance_def base_def)
qed

lemma advance_stays:
  assumes "cursor_in_range r (x + 1)" "16777216 \<le> x + 1"
  shows "advance r x = x + 1"
proof -
  have "x + 1 < 4294967296" "Contains r (bytes4 (x + 1))"
    using assms(1) by (simp_all add: cursor_in_range_def)
  then have "length (Bytes (x + 1)) = 4" using assms(2) unfolding length_Bytes_4 by simp
  then have "Bytes (x + 1) = bytes4 (x + 1)" by (rule Bytes_eq_bytes4)
  then show ?thesis using \<open>Contains r (bytes4 (x + 1))\<close> by (simp add: advance_def)
qed


lemma initialize_cidr_pool:
  "initialize h0 s n = Inr h \<Longrightarrow> \<exists>r. ipRange h = Some r \<and> cidr_pool r"
  by (drule initialize_Some) (auto simp: cidr_pool_def)

lemma init30_3:
  "initialize h ''240.0.0.0/30'' 3 = Inr (h\<lparr>domainToIP := Some (NewLru 3), ipRange := Some \<lparr>IP = [240, 0, 0, 0], Mask = [255, 255, 255, 252]\<rparr>, nextIP := Some 4026531840\<rparr>)"
  by (simp add: initialize_def parse_240_30 size_30 Log2_ge_def To4_def v4InV6Prefix_def SetBytes_def)

lemma run30_abc:
  "run \<lparr>domainToIP = Some (NewLru 3), nextIP = Some 4026531840, ipRange = Some \<lparr>IP = [240, 0, 0, 0], Mask = [255, 255, 255, 252]\<rparr>, config = None\<rparr>
     [AllocCall ''a'', AllocCall ''b'', AllocCall ''c'']
   = Some (Inr \<lparr>domainToIP = Some \<lparr>capacity = 3, entries = [(''c'', Some (IPv4Address [240, 0, 0, 2])), (''b'', Some (IPv4Address [240, 0, 0, 1])), (''a'', Some (IPv4Address [240, 0, 0, 0]))]\<rparr>, nextIP = Some 4026531843, ipRange = Some \<lparr>IP = [240, 0, 0, 0], Mask = [255, 255, 255, 252]\<rparr>, config = None\<rparr>)"
  by (simp add: eval_defs)

lemma run30_de:
  "run \<lparr>domainToIP = Some \<lparr>capacity = 3, entries = [(''c'', Some (IPv4Address [240, 0, 0, 2])), (''b'', Some (IPv4Address [240, 0, 0, 1])), (''a'', Some (IPv4Address [240, 0, 0, 0]))]\<rparr>, nextIP = Some 4026531843, ipRange = Some \<lparr>IP = [240, 0, 0, 0], Mask = [255, 255, 255, 252]\<rparr>, config = None\<rparr>
     [AllocCall ''d'', AllocCall ''e'']
   = Some (Inr \<lparr>domainToIP = Some \<lparr>capacity = 3, entries = [(''e'', Some (IPv4Address [240, 0, 0, 0])), (''d'', Some (IPv4Address [240, 0, 0, 3])), (''c'', Some (IPv4Address [240, 0, 0, 2]))]\<rparr>, nextIP = Some 4026531841, ipRange = Some \<lparr>IP = [240, 0, 0, 0], Mask = [255, 255, 255, 252]\<rparr>, config = None\<rparr>)"
  by (simp add: eval_defs)




subsection \<open>The walk of the cursor through the pool\<close>

lemma advance_orbit:
  assumes c: "cidr_pool r" and b: "16777216 \<le> base r"
    and x: "base r \<le> x" "x < base r + poolSize r"
  shows "(advance r ^^ j) x = base r + (x - base r + j) mod poolSize r"
proof (induction j)
  case 0
  show ?case using x by simp
next
  case (Suc j)
  define y where "y = (x - base r + j) mod poolSize r"
  have y: "y < poolSize r" using poolSize_pos [of r] by (simp add: y_def)
  have m: "(x - base r + Suc j) mod poolSize r = (if Suc y = poolSize r then 0 else Suc y)"
    by (simp add: y_def mod_Suc)
  have "(advance r ^^ Suc j) x = advance r (base r + y)"
    using Suc.IH by (simp add: y_def)
  also have "\<dots> = base r + (x - base r + Suc j) mod poolSize r"
  proof (cases "Suc y = poolSize r")
    case True
    then have "\<not> cursor_in_range r (base r + y + 1)"
      using cidr_pool_in_range [OF c] by simp
    then have "advance r (base r + y) = base r" by (rule advance_leaves)
    then show ?thesis using True m by simp
  next
    case False
    then have "cursor_in_range r (base r + y + 1)"
      using cidr_pool_in_range [OF c] y by simp
    moreover have "16777216 \<le> base r + y + 1" using b by simp
    ultimately have "advance r (base r + y) = base r + y + 1" by (rule advance_stays)
    then show ?thesis using False m by simp
  qed
  finally show ?case .
qed

lemma IPAddress_Bytes_pool:
  assumes "16777216 \<le> y" "y < 4294967296"
  shows "IPAddress (Bytes y) = Some (IPv4Address (bytes4 y))"
proof -
  have l: "length (Bytes y) = 4" using assms unfolding length_Bytes_4 by simp
  then show ?thesis using Bytes_eq_bytes4 [OF l] by (simp add: IPAddress_def)
qed

lemma bytes4_inj: "y < 4294967296 \<Longrightarrow> y' < 4294967296 \<Longrightarrow> bytes4 y = bytes4 y' \<Longrightarrow> y = y'"
  using SetBytes_bytes4 by metis

lemma mod_shift_inj:
  fixes a j j' S :: nat
  assumes "j < S" "j' < S" "(a + j) mod S = (a + j') mod S"
  shows "j = j'"
proof -
  have *: "i = i'" if "i \<le> i'" "i' < S" "(a + i) mod S = (a + i') mod S" for i i'
  proof -
    have "a + i \<le> a + i'" using that(1) by simp
    then have "S dvd (a + i') - (a + i)"
      using that(3) mod_eq_dvd_iff_nat [of "a + i" "a + i'" S] by simp
    then have "S dvd i' - i" by simp
    moreover have "i' - i < S" using that(2) by simp
    ultimately have "i' - i = 0" by (meson dvd_imp_le not_less zero_less_iff_neq_zero)
    then show ?thesis using that(1) by simp
  qed
  show ?thesis
  proof (cases "j \<le> j'")
    case True
    then show ?thesis using * [of j j'] assms by simp
  next
    case False
    then show ?thesis using * [of j' j] assms by simp
  qed
qed

lemma candidates_inj:
  assumes c: "cidr_pool r" and b: "16777216 \<le> base r"
    and x: "base r \<le> x" "x < base r + poolSize r"
  shows "inj_on (\<lambda>j. IPAddress (Bytes ((advance r ^^ j) x))) {..<poolSize r}"
proof (rule inj_onI)
  fix j j'
  assume j: "j \<in> {..<poolSize r}" "j' \<in> {..<poolSize r}"
    and e: "IPAddress (Bytes ((advance r ^^ j) x)) = IPAddress (Bytes ((advance r ^^ j') x))"
  define y where "y i = base r + (x - base r + i) mod poolSize r" for i
  have o: "(advance r ^^ i) x = y i" for i
    unfolding y_def using c b x by (rule advance_orbit)
  have r: "16777216 \<le> y i \<and> y i < 4294967296" for i
  proof -
    have "(x - base r + i) mod poolSize r < poolSize r" using poolSize_pos [of r] by simp
    then show ?thesis using b cidr_pool_top [OF c] by (simp add: y_def)
  qed
  have "bytes4 (y j) = bytes4 (y j')"
    using e r [of j] r [of j'] by (simp add: o IPAddress_Bytes_pool)
  then have "y j = y j'" using r [of j] r [of j'] bytes4_inj by blast
  then have "(x - base r + j) mod poolSize r = (x - base r + j') mod poolSize r"
    by (simp add: y_def)
  then show "j = j'" using j mod_shift_inj by auto
qed

lemma free_candidate:
  assumes c: "cidr_pool r" and b: "16777216 \<le> base r"
    and x: "base r \<le> x" "x < base r + poolSize r"
    and l: "length es < poolSize r"
  shows "\<exists>j<poolSize r. IPAddress (Bytes ((advance r ^^ j) x)) \<notin> snd ` set es"
proof (rule ccontr)
  assume "\<not> ?thesis"
  then have sub: "(\<lambda>j. IPAddress (Bytes ((advance r ^^ j) x))) ` {..<poolSize r} \<subseteq> snd ` set es"
    by auto
  have "poolSize r = card ((\<lambda>j. IPAddress (Bytes ((advance r ^^ j) x))) ` {..<poolSize r})"
    using candidates_inj [OF c b x] by (simp add: card_image)
  also have "\<dots> \<le> card (snd ` set es)"
    using sub by (intro card_mono) simp_all
  also have "\<dots> \<le> length es"
    by (meson card_image_le card_length le_trans List.finite_set)
  finally show False using l by simp
qed

lemma allocLoop_terminates:
  assumes c: "cidr_pool r" and b: "16777216 \<le> base r"
    and x: "cursor_in_range r x"
    and l: "length (entries cache) < poolSize r"
  shows "\<exists>k<poolSize r. \<exists>a.
           allocLoop cache r x = Some (Some a, (advance r ^^ Suc k) x) \<and>
           IPAddress (Bytes ((advance r ^^ k) x)) = Some a \<and>
           GetKeyFromValue cache (Some a) = None \<and>
           (\<forall>j<k. GetKeyFromValue cache (IPAddress (Bytes ((advance r ^^ j) x))) \<noteq> None)"
proof -
  have xr: "base r \<le> x" "x < base r + poolSize r"
    using x cidr_pool_in_range [OF c] by simp_all
  define free where "free j \<longleftrightarrow> GetKeyFromValue cache (IPAddress (Bytes ((advance r ^^ j) x))) = None" for j
  from free_candidate [OF c b xr l] obtain j where j: "j < poolSize r" "free j"
    by (auto simp: free_def GetKeyFromValue_None)
  define k where "k = (LEAST j. free j)"
  have k: "free k" unfolding k_def using j(2) by (rule LeastI)
  have kj: "k \<le> j" unfolding k_def using j(2) by (rule Least_le)
  have least: "\<forall>i<k. \<not> free i" using not_less_Least k_def by blast
  have loop: "allocLoop cache r x =
      Some (IPAddress (Bytes ((advance r ^^ k) x)), (advance r ^^ Suc k) x)"
    using k least by (intro allocLoop_iter_Some) (simp_all add: free_def)
  have cr: "cursor_in_range r ((advance r ^^ k) x)"
    using cidr_pool_wf [OF c] x by (rule funpow_advance_in_range)
  have "base r \<le> (advance r ^^ k) x"
    using cr cidr_pool_in_range [OF c] by simp
  moreover have "(advance r ^^ k) x < 4294967296"
    using cr by (simp add: cursor_in_range_def)
  ultimately have a: "IPAddress (Bytes ((advance r ^^ k) x)) = Some (IPv4Address (bytes4 ((advance r ^^ k) x)))"
    using b by (intro IPAddress_Bytes_pool) simp_all
  show ?thesis
    using kj j(1) loop a k least
    by (intro exI [of _ k] conjI exI [of _ "IPv4Address (bytes4 ((advance r ^^ k) x))"])
      (simp_all add: free_def)
qed

subsection \<open>The capacity of the cache\<close>

lemma length_move_front:
  "(k, v) \<in> set es \<Longrightarrow> length ((k, v) # filter (\<lambda>e. fst e \<noteq> k) es) \<le> length es"
  using length_filter_less [of "(k, v)" es "\<lambda>e. fst e \<noteq> k"] by simp

lemma length_put_new:
  "0 < n \<Longrightarrow> int (length es) \<le> n \<Longrightarrow>
     int (length ((k, v) # (if n \<le> int (length es) then butlast es else es))) \<le> n"
  by (cases es) auto

lemma GetFakeIPForDomain_cap:
  assumes "cap_inv n h" "0 < n" "GetFakeIPForDomain h d = Some (Inr (as, h'))"
  shows "cap_inv n h'"
  using assms(3)
proof (cases rule: GetFakeIPForDomain_cases)
  case (hit c a)
  then show ?thesis
    using assms(1) length_move_front [OF hit(2)] by (auto simp: cap_inv_def)
next
  case (miss c r x ip x')
  have c: "capacity c = n" "int (length (entries c)) \<le> n"
    using assms(1) miss(1) by (auto simp: cap_inv_def)
  have "int (length (entries (Put c d ip))) \<le> n"
    using Put_new [OF miss(4), of ip] length_put_new [OF assms(2) c(2)] c(1) by simp
  then show ?thesis
    using Put_new [OF miss(4), of ip] c(1) by (simp add: cap_inv_def miss(7))
qed

lemma run_cap:
  "cap_inv n h \<Longrightarrow> 0 < n \<Longrightarrow> run h cs = Some (Inr h') \<Longrightarrow> cap_inv n h'"
proof (induction h cs rule: run.induct)
  case (1 h)
  then show ?case by simp
next
  case (2 h d cs)
  from "2.prems"(3) obtain as h1 where
    c: "GetFakeIPForDomain h d = Some (Inr (as, h1))" and r: "run h1 cs = Some (Inr h')"
    by (auto split: option.splits sum.splits)
  have "cap_inv n h1" using "2.prems"(1,2) c by (rule GetFakeIPForDomain_cap)
  from "2.IH" [OF c refl refl this "2.prems"(2) r] show ?case .
next
  case (3 h a cs)
  from "3.prems"(3) obtain x where
    c: "GetDomainFromFakeDNS h a = Inr x" and r: "run h cs = Some (Inr h')"
    by (auto split: sum.splits)
  from "3.IH" [OF c "3.prems"(1,2) r] show ?case .
qed

lemma initialize_cap: "initialize h0 s n = Inr h \<Longrightarrow> 0 < n \<Longrightarrow> cap_inv n h"
  by (drule initialize_Some) (auto simp: cap_inv_def NewLru_def)

lemma initialize_capacity_lt:
  assumes "initialize h0 s n = Inr h" "0 < n" "ipRange h = Some r"
  shows "n < int (poolSize r)"
proof -
  from initialize_Some [OF assms(1)] assms(3) have "\<not> Log2_ge n (rooms r)" by auto
  then show ?thesis using assms(2) by (simp add: Log2_ge_def poolSize_def)
qed

subsection \<open>The loop returns\<close>

lemma GetFakeIPForDomain_no_nil:
  assumes "no_nil h" "GetFakeIPForDomain h d = Some (Inr ([Some a], h'))"
  shows "no_nil h'"
  using assms(2)
proof (cases rule: GetFakeIPForDomain_cases)
  case (hit c a')
  then show ?thesis using assms(1) by (auto simp: no_nil_def live_def)
next
  case (miss c r x ip x')
  then show ?thesis
    using assms(1) Put_new [OF miss(4), of ip]
    by (auto simp: no_nil_def live_def dest: in_set_butlastD split: if_splits)
qed

lemma GetFakeIPForDomain_returns:
  assumes inv: "holder_inv h" and cap: "cap_inv n h" and nn: "no_nil h"
    and r: "ipRange h = Some r" "cidr_pool r" "16777216 \<le> base r" and n: "n < int (poolSize r)"
  shows "\<exists>a h'. GetFakeIPForDomain h d = Some (Inr ([Some a], h'))"
proof -
  from inv r(1) obtain c x where
    i: "domainToIP h = Some c" "nextIP h = Some x" "cursor_in_range r x"
    by (auto simp: holder_inv_def)
  show ?thesis
  proof (cases "map_of (entries c) d")
    case None
    have l: "length (entries c) < poolSize r"
      using cap i(1) n by (auto simp: cap_inv_def)
    from allocLoop_terminates [OF r(2,3) i(3) l] obtain k a where
      "allocLoop c r x = Some (Some a, (advance r ^^ Suc k) x)" by blast
    then show ?thesis
      using None i(1,2) r(1) by (simp add: GetFakeIPForDomain_def Get_def)
  next
    case (Some v)
    then have "(d, v) \<in> live h" using i(1) by (auto simp: live_def dest: map_of_SomeD)
    then obtain a where "v = Some a" using nn by (cases v) (auto simp: no_nil_def)
    then show ?thesis
      using Some i(1) by (simp add: GetFakeIPForDomain_def Get_def)
  qed
qed

lemma run_no_nil:
  assumes "holder_inv h" "no_nil h" "ipRange h = Some r" "cidr_pool r" "16777216 \<le> base r"
    "run h cs = Some (Inr h')"
  shows "no_nil h'"
  using assms
proof (induction h cs rule: run.induct)
  case (1 h)
  then show ?case by simp
next
  case (2 h d cs)
  from "2.prems"(6) obtain as h1 where
    c: "GetFakeIPForDomain h d = Some (Inr (as, h1))" and r1: "run h1 cs = Some (Inr h')"
    by (auto split: option.splits sum.splits)
  from GetFakeIPForDomain_inv [OF "2.prems"(1) c] have
    h1: "holder_inv h1" "ipRange h1 = Some r" using "2.prems"(3) by simp_all
  have "\<exists>a. as = [Some a]"
    using c
  proof (cases rule: GetFakeIPForDomain_cases)
    case (hit c' a)
    then show ?thesis by simp
  next
    case (miss c' r' x ip x')
    then have r': "r' = r" using "2.prems"(3) by simp
    from "2.prems"(1) miss(1-3) have x: "cursor_in_range r x" "pool_wf r"
      by (auto simp: holder_inv_def r')
    from allocLoop_Some_iter [OF miss(5)] obtain k where
      k: "ip = IPAddress (Bytes ((advance r ^^ k) x))" by (auto simp: r')
    have cr: "cursor_in_range r ((advance r ^^ k) x)"
      using x(2,1) by (rule funpow_advance_in_range)
    have "base r \<le> (advance r ^^ k) x"
      using cr cidr_pool_in_range [OF "2.prems"(4)] by simp
    moreover have "(advance r ^^ k) x < 4294967296"
      using cr by (simp add: cursor_in_range_def)
    ultimately have "ip = Some (IPv4Address (bytes4 ((advance r ^^ k) x)))"
      unfolding k using "2.prems"(5) by (intro IPAddress_Bytes_pool) simp_all
    then show ?thesis using miss(6) by simp
  qed
  then obtain a where a: "as = [Some a]" by blast
  have "no_nil h1" using "2.prems"(2) c [unfolded a] by (rule GetFakeIPForDomain_no_nil)
  from "2.IH" [OF c refl refl h1(1) this h1(2) "2.prems"(4,5) r1] show ?case .
next
  case (3 h a cs)
  from "3.prems"(6) obtain x where
    c: "GetDomainFromFakeDNS h a = Inr x" and r: "run h cs = Some (Inr h')"
    by (auto split: sum.splits)
  from "3.IH" [OF c "3.prems"(1-5) r] show ?case .
qed

lemma run_allocs_return:
  assumes r: "cidr_pool r" "16777216 \<le> base r" and n: "n < int (poolSize r)" "0 < n"
  shows "holder_inv h \<Longrightarrow> cap_inv n h \<Longrightarrow> no_nil h \<Longrightarrow> ipRange h = Some r \<Longrightarrow>
         \<exists>h'. run h (map AllocCall ds) = Some (Inr h')"
proof (induction ds arbitrary: h)
  case Nil
  show ?case by simp
next
  case (Cons d ds)
  from GetFakeIPForDomain_returns [OF Cons.prems(1-3) Cons.prems(4) r n(1)] obtain a h1 where
    c: "GetFakeIPForDomain h d = Some (Inr ([Some a], h1))" by blast
  from GetFakeIPForDomain_inv [OF Cons.prems(1) c] have
    i1: "holder_inv h1" "ipRange h1 = Some r" using Cons.prems(4) by simp_all
  have c1: "cap_inv n h1" using Cons.prems(2) n(2) c by (rule GetFakeIPForDomain_cap)
  have n1: "no_nil h1" using Cons.prems(3) c by (rule GetFakeIPForDomain_no_nil)
  from Cons.IH [OF i1(1) c1 n1 i1(2)] show ?case by (simp add: c)
qed

lemma initialize_no_nil: "initialize h0 s n = Inr h \<Longrightarrow> no_nil h"
  by (drule initialize_Some) (auto simp: no_nil_def live_def NewLru_def)

subsection \<open>The loop has no bound\<close>

lemma allocLoop_stuck:
  assumes live: "GetKeyFromValue c (IPAddress (Bytes x)) \<noteq> None" and stay: "advance r x = x"
  shows "allocLoop c r x = None"
proof (rule ccontr)
  assume "allocLoop c r x \<noteq> None"
  then obtain y where y: "allocLoop c r x = Some y" by auto
  let ?P = "\<lambda>c' r' (x'::nat) (y'::Address option \<times> nat). \<not> (c' = c \<and> r' = r \<and> x' = x)"
  have "?P c r x y"
  proof (rule allocLoop.raw_induct [where P = ?P, OF _ y])
    fix f c' r' x' y'
    assume IH: "\<And>c r n y. f c r n = Some y \<Longrightarrow> ?P c r n y"
      and eq: "(case GetKeyFromValue c' (IPAddress (Bytes x')) of
                  None \<Rightarrow> Some (IPAddress (Bytes x'), advance r' x')
                | Some k \<Rightarrow> f c' r' (advance r' x')) = Some y'"
    show "?P c' r' x' y'"
    proof
      assume e: "c' = c \<and> r' = r \<and> x' = x"
      with live eq stay have "f c r x = Some y'" by (auto split: option.splits)
      from IH [OF this] show False by simp
    qed
  qed
  then show False by simp
qed

lemma parse_0_8: "ParseCIDR ''0.0.0.0/8'' = Some (v4InV6Prefix @ [0, 0, 0, 0], zero_pool)"
  by (simp add: ParseCIDR_def parseIPv4_def parseIPv4_loop.simps dtoi_def isDigit_def big_def
      CIDRMask_def CIDRMask_bytes.simps MaskIP_def v4InV6Prefix_def zero_pool_def)

lemma init_0_8: "initialize (NewFakeDNSHolderConfigOnly None) ''0.0.0.0/8'' 2 = Inr zero_holder"
  by (simp add: initialize_def parse_0_8 zero_pool_def size_8 Log2_ge_def To4_def v4InV6Prefix_def
      SetBytes_def NewFakeDNSHolderConfigOnly_def zero_holder_def NewLru_def)

lemma zero_advance: "advance zero_pool 0 = 0"
  by (simp add: advance_def zero_pool_def Contains_def To4_def Bytes.simps SetBytes_def)

lemma zero_first: "GetFakeIPForDomain zero_holder ''a.com'' = Some (Inr ([None], zero_holder_1))"
  by (simp add: zero_holder_def zero_holder_1_def eval_defs zero_pool_def)

lemma zero_second: "GetFakeIPForDomain zero_holder_1 ''b.com'' = None"
proof -
  have "GetKeyFromValue \<lparr>capacity = 2, entries = [(''a.com'', None)]\<rparr> (IPAddress (Bytes 0)) \<noteq> None"
    by (simp add: GetKeyFromValue_def IPAddress_def Bytes_0)
  then have "allocLoop \<lparr>capacity = 2, entries = [(''a.com'', None)]\<rparr> zero_pool 0 = None"
    using zero_advance by (rule allocLoop_stuck)
  then show ?thesis
    by (simp add: GetFakeIPForDomain_def zero_holder_1_def Get_def)
qed

text \<open>
  Claim C4. The loop has no bound: on the Holder initialized with the pool
  \<^verbatim>\<open>0.0.0.0/8\<close> and capacity 2, far below the size of the pool, the first
  allocation returns the nil address and the second never returns.
\<close>

theorem allocation_loop_counterexample:
  "initialize (NewFakeDNSHolderConfigOnly None) ''0.0.0.0/8'' 2 = Inr zero_holder \<and>
   2 < poolSize zero_pool \<and>
   GetFakeIPForDomain zero_holder ''a.com'' = Some (Inr ([None], zero_holder_1)) \<and>
   GetFakeIPForDomain zero_holder_1 ''b.com'' = None"
  by (simp add: init_0_8 zero_first zero_second poolSize_def rooms_def zero_pool_def size_8)

text \<open>
  Claim C4, amended. On a Holder initialized with a positive capacity and a pool
  whose base address has a non-zero leading byte, after any calls, every call of
  \<^verbatim>\<open>GetFakeIPForDomain\<close> returns an address, and so does every further sequence
  of such calls: the cache holds at most as many mappings as its capacity, which
  is below the size of the pool, and the loop stops at the first free candidate,
  after at most as many turns as the pool has addresses.
\<close>

theorem allocation_loop_terminates:
  assumes "initialize h0 s n = Inr h" and "0 < n"
    and "ipRange h = Some r" and "16777216 \<le> base r"
    and "run h cs = Some (Inr h1)"
  shows "(\<exists>a h2. GetFakeIPForDomain h1 d = Some (Inr ([Some a], h2))) \<and>
         (\<exists>h2. run h1 (map AllocCall ds) = Some (Inr h2)) \<and>
         (\<exists>c x. domainToIP h1 = Some c \<and> nextIP h1 = Some x \<and> ipRange h1 = Some r \<and>
            int (length (entries c)) \<le> n \<and> n < int (poolSize r) \<and>
            (\<exists>k<poolSize r. \<exists>a.
               allocLoop c r x = Some (Some a, (advance r ^^ Suc k) x) \<and>
               IPAddress (Bytes ((advance r ^^ k) x)) = Some a \<and>
               GetKeyFromValue c (Some a) = None \<and>
               (\<forall>j<k. GetKeyFromValue c (IPAddress (Bytes ((advance r ^^ j) x))) \<noteq> None)))"
proof -
  from initialize_cidr_pool [OF assms(1)] assms(3) have cp: "cidr_pool r" by simp
  have lt: "n < int (poolSize r)" using assms(1-3) by (rule initialize_capacity_lt)
  have i0: "holder_inv h" using assms(1) by (rule initialize_inv)
  from run_inv [OF i0 assms(5)] have i1: "holder_inv h1" and r1: "ipRange h1 = Some r"
    using assms(3) by simp_all
  have c1: "cap_inv n h1"
    using initialize_cap [OF assms(1,2)] assms(2,5) by (rule run_cap)
  have n1: "no_nil h1"
    using i0 initialize_no_nil [OF assms(1)] assms(3) cp assms(4,5) by (rule run_no_nil)
  have ret: "\<exists>a h2. GetFakeIPForDomain h1 d = Some (Inr ([Some a], h2))"
    using i1 c1 n1 r1 cp assms(4) lt by (rule GetFakeIPForDomain_returns)
  from i1 r1 obtain c x where
    cx: "domainToIP h1 = Some c" "nextIP h1 = Some x" "cursor_in_range r x"
    by (auto simp: holder_inv_def)
  have len: "int (length (entries c)) \<le> n" using c1 cx(1) by (auto simp: cap_inv_def)
  then have "length (entries c) < poolSize r" using lt by simp
  from allocLoop_terminates [OF cp assms(4) cx(3) this] cx(1,2) r1 len lt
  have loop: "\<exists>c x. domainToIP h1 = Some c \<and> nextIP h1 = Some x \<and> ipRange h1 = Some r \<and>
            int (length (entries c)) \<le> n \<and> n < int (poolSize r) \<and>
            (\<exists>k<poolSize r. \<exists>a.
               allocLoop c r x = Some (Some a, (advance r ^^ Suc k) x) \<and>
               IPAddress (Bytes ((advance r ^^ k) x)) = Some a \<and>
               GetKeyFromValue c (Some a) = None \<and>
               (\<forall>j<k. GetKeyFromValue c (IPAddress (Bytes ((advance r ^^ j) x))) \<noteq> None))"
    by blast
  have seq: "\<exists>h2. run h1 (map AllocCall ds) = Some (Inr h2)"
    using cp assms(4) lt assms(2) i1 c1 n1 r1 by (rule run_allocs_return)
  from ret seq loop show ?thesis by (intro conjI)
qed

theorem allocation_loop_terminates_witness:
  "\<exists>h r h1 a h2. initialize (NewFakeDNSHolderConfigOnly None) ''240.0.0.0/30'' 3 = Inr h \<and>
     ipRange h = Some r \<and> base r = 4026531840 \<and> poolSize r = 4 \<and>
     run h [AllocCall ''a'', AllocCall ''b'', AllocCall ''c''] = Some (Inr h1) \<and>
     GetFakeIPForDomain h1 ''d'' = Some (Inr ([Some a], h2))"
proof -
  let ?r = "\<lparr>IP = [240, 0, 0, 0], Mask = [255, 255, 255, 252]\<rparr>"
  let ?h = "\<lparr>domainToIP = Some (NewLru 3), nextIP = Some 4026531840, ipRange = Some ?r, config = None\<rparr>"
  let ?h1 = "\<lparr>domainToIP = Some \<lparr>capacity = 3, entries = [(''c'', Some (IPv4Address [240, 0, 0, 2])),
               (''b'', Some (IPv4Address [240, 0, 0, 1])), (''a'', Some (IPv4Address [240, 0, 0, 0]))]\<rparr>,
              nextIP = Some 4026531843, ipRange = Some ?r, config = None\<rparr>"
  have i: "initialize (NewFakeDNSHolderConfigOnly None) ''240.0.0.0/30'' 3 = Inr ?h"
    by (simp add: init30_3 NewFakeDNSHolderConfigOnly_def)
  have r1: "run ?h [AllocCall ''a'', AllocCall ''b'', AllocCall ''c''] = Some (Inr ?h1)"
    by (rule run30_abc)
  have b: "base ?r = 4026531840" by (simp add: base_def SetBytes_def)
  have s: "poolSize ?r = 4" by (simp add: poolSize_def rooms_def size_30)
  have p: "ipRange ?h = Some ?r" by simp
  have b': "16777216 \<le> base ?r" by (simp add: b)
  from allocation_loop_terminates [OF i _ p b' r1, of "''d''" "[]"]
  have "\<exists>a h2. GetFakeIPForDomain ?h1 ''d'' = Some (Inr ([Some a], h2))" by simp
  then obtain a h2 where "GetFakeIPForDomain ?h1 ''d'' = Some (Inr ([Some a], h2))" by blast
  then show ?thesis using i r1 b s p by blast
qed

subsection \<open>Least recently used\<close>















subsection \<open>Reverse lookup and the range of the pool\<close>




end
